theory Spec2Isabelle
  imports Main "HOL-Library.Char_ord" "HOL-Library.List_Lexorder" "HOL-Library.Word"
begin

section \<open>Containers of the C++ standard library and of VTK\<close>

text \<open>
  \<open>std::map\<close> is an ordered dictionary: iteration visits the entries by increasing key
  and \<open>m[k] = v\<close> replaces the entry of \<open>k\<close> or inserts it at its place. It is modelled as
  an association list kept in key order; \<open>find\<close> is \<open>map_of\<close>, \<open>clear\<close> is \<open>[]\<close>. Keys
  of type \<open>std::string\<close> compare bytewise, which is the lexicographic order on \<open>string\<close>.
\<close>

type_synonym ('k, 'v) std_map = "('k \<times> 'v) list"

fun map_assign :: "'k::linorder \<Rightarrow> 'v \<Rightarrow> ('k, 'v) std_map \<Rightarrow> ('k, 'v) std_map" where
  "map_assign k v [] = [(k, v)]"
| "map_assign k v (e # es) =
     (if fst e = k then (k, v) # es
      else if k < fst e then (k, v) # e # es
      else e # map_assign k v es)"

text \<open>
  An \<open>int\<close> has 32 bits: it is a \<open>32 word\<close>, read as a signed number by \<open>sint\<close>, and \<open>+\<close>
  wraps from the largest to the smallest value. \<open>operator<<\<close> on an \<open>int\<close> writes a minus
  sign if the number is negative, then its decimal digits.
\<close>

type_synonym c_int = "32 word"

definition digit :: "nat \<Rightarrow> char" where
  "digit d = ''0123456789'' ! d"

fun dec :: "nat \<Rightarrow> string" where
  "dec n = (if n < 10 then [digit n] else dec (n div 10) @ [digit (n mod 10)])"

declare dec.simps [simp del]

definition print_int :: "int \<Rightarrow> string" where
  "print_int i = (if i < 0 then CHR ''-'' # dec (nat (- i)) else dec (nat i))"

text \<open>
  \<open>operator>>\<close> from a stream into a \<open>std::string\<close> skips the leading white space and reads
  up to the next white space (blank, tab, line feed, vertical tab, form feed, carriage
  return).
\<close>

definition isspace :: "char \<Rightarrow> bool" where
  "isspace ch = (ch \<in> set [CHR 0x20, CHR 0x09, CHR 0x0A, CHR 0x0B, CHR 0x0C, CHR 0x0D])"

definition extract_word :: "string \<Rightarrow> string" where
  "extract_word str = takeWhile (\<lambda>ch. \<not> isspace ch) (dropWhile isspace str)"

text \<open>
  The scene builds the text of an ID in a string stream: it writes the class name, writes
  the index and reads the text back with \<open>operator>>\<close> (the loop body of
  \<open>GetUniqueIDIndexByClassFromIndex\<close>). The index always leaves a character that is no
  white space, so the extraction never fails.
\<close>

definition candidateName :: "string \<Rightarrow> c_int \<Rightarrow> string" where
  "candidateName className index = extract_word (className @ print_int (sint index))"

section \<open>Nodes\<close>

text \<open>
  Nodes live on the heap and the scene holds pointers to them, so a node is an address
  and the heap maps addresses to node states. Pointer equality (\<open>node == copyNode\<close>) is
  equality of addresses. Reference counting is not modelled: an object is never reused.

  Modelled from the spec: the class \<open>vtkMRMLNode\<close> is declared outside the files at hand.
  The record holds the base-class state the scene reads and writes through the getters and
  setters (\<open>GetID\<close>, \<open>GetName\<close>, \<open>GetSingletonTag\<close>, \<open>GetAddToScene\<close>, \<open>GetSaveWithScene\<close>,
  \<open>GetIndent\<close>, \<open>SetSceneRootDir\<close>, \<open>SetScene\<close>); a \<open>char*\<close> that may be \<open>NULL\<close> is an
  option. \<open>ClassName\<close>, \<open>SuperClassNames\<close> and \<open>NodeTagName\<close> are what the virtual
  \<open>GetClassName\<close>, \<open>IsA\<close> and \<open>GetNodeTagName\<close> of the node's class answer; \<open>Contents\<close> stands
  for everything a subclass adds. \<open>InScene\<close> tells whether the node's scene pointer is set
  (there is one scene).
\<close>

type_synonym addr = nat

record node =
  ID :: "string option"
  Name :: "string option"
  ClassName :: string
  SuperClassNames :: "string list"
  NodeTagName :: string
  SingletonTag :: "string option"
  AddToScene :: bool
  SaveWithScene :: bool
  Indent :: int
  SceneRootDir :: "string option"
  InScene :: bool
  Contents :: string

definition IsA :: "node \<Rightarrow> string \<Rightarrow> bool" where
  "IsA n className = (className = ClassName n \<or> className \<in> set (SuperClassNames n))"

text \<open>
  Modelled from the spec: \<open>CreateNodeInstance\<close> answers a new object of the node's own
  class in its constructor state.
\<close>

definition CreateNodeInstance :: "node \<Rightarrow> node" where
  "CreateNodeInstance n =
     \<lparr>ID = None, Name = None, ClassName = ClassName n, SuperClassNames = SuperClassNames n,
      NodeTagName = NodeTagName n, SingletonTag = None, AddToScene = True,
      SaveWithScene = True, Indent = 0, SceneRootDir = None, InScene = False,
      Contents = []\<rparr>"

text \<open>
  Modelled from the spec: \<open>CopyWithSceneWithSingleModifiedEvent\<close> copies the contents of
  another node into this one, scene pointer and ID included when the other node has them
  (the undo stack relies on it: a saved copy is found again by its \<open>GetID\<close>). The class of
  the receiving object stays what it is.
\<close>

definition Copy :: "node \<Rightarrow> node \<Rightarrow> node" where
  "Copy this other =
     other\<lparr>ID := ID this, InScene := InScene this, ClassName := ClassName this,
           SuperClassNames := SuperClassNames this, NodeTagName := NodeTagName this\<rparr>"

definition CopyWithSceneWithSingleModifiedEvent :: "node \<Rightarrow> node \<Rightarrow> node" where
  "CopyWithSceneWithSingleModifiedEvent this other =
     (let t1 = (if InScene other then this\<lparr>InScene := True\<rparr> else this);
          t2 = (if ID other \<noteq> None then t1\<lparr>ID := ID other\<rparr> else t1)
      in Copy t2 other)"

text \<open>
  Modelled from the spec: \<open>ConstructAndSetID(str, index)\<close> sets the ID to \<open>str\<close> followed by
  the index, the text the scene has tested as candidate for this index.
\<close>

definition ConstructAndSetID :: "string \<Rightarrow> c_int \<Rightarrow> node \<Rightarrow> node" where
  "ConstructAndSetID str index n = n\<lparr>ID := Some (candidateName str index)\<rparr>"

section \<open>The scene\<close>

text \<open>
  A \<open>vtkCollection\<close> is the list of its items; \<open>AddItem\<close> appends, \<open>RemoveItem(obj)\<close>
  removes the first occurrence, and both stamp the collection with a new, larger
  modification time. Only the order of the time stamps of \<open>CurrentScene\<close> matters
  (\<open>UpdateNodeIDs\<close> compares them), so a stamp is a counter. The two parallel vectors
  \<open>ReferencedIDs\<close> and \<open>ReferencingNodes\<close> are one list of pairs. Events have no observer
  here, and the scene's own \<open>Modified()\<close> stamp is not read by any operation below.
\<close>

record scene =
  heap :: "addr \<Rightarrow> node"
  NextNode :: addr
  CurrentScene :: "addr list"
  CurrentSceneMTime :: nat
  NodeIDs :: "(string, addr) std_map"
  NodeIDsMTime :: nat
  UndoStack :: "addr list list"
  RedoStack :: "addr list list"
  UndoFlag :: bool
  InUndo :: bool
  UniqueIDByClass :: "(string, c_int) std_map"
  References :: "(string \<times> addr option) list"
  ReferencedIDChanges :: "(string, string) std_map"
  ErrorCode :: nat
  RootDirectory :: string
  URL :: string

definition AddItem :: "addr \<Rightarrow> scene \<Rightarrow> scene" where
  "AddItem a s =
     s\<lparr>CurrentScene := CurrentScene s @ [a], CurrentSceneMTime := Suc (CurrentSceneMTime s)\<rparr>"

definition RemoveItem :: "addr \<Rightarrow> scene \<Rightarrow> scene" where
  "RemoveItem a s =
     (if a \<in> set (CurrentScene s)
      then s\<lparr>CurrentScene := remove1 a (CurrentScene s),
             CurrentSceneMTime := Suc (CurrentSceneMTime s)\<rparr>
      else s)"

definition RemoveAllItems :: "scene \<Rightarrow> scene" where
  "RemoveAllItems s =
     (if CurrentScene s = [] then s
      else s\<lparr>CurrentScene := [], CurrentSceneMTime := Suc (CurrentSceneMTime s)\<rparr>)"

subsection \<open>Looking nodes up by ID\<close>

text \<open>
  Building a \<open>std::string\<close> from a \<open>NULL\<close> ID is undefined behaviour; the model stops
  there with \<open>None\<close>. The same loop shape serves \<open>UpdateNodeIDs\<close>, \<open>Undo\<close> and \<open>Redo\<close>:
  \<open>map[node->GetID()] = node\<close> for the items of a collection in order.
\<close>

fun map_by_ID :: "(addr \<Rightarrow> node) \<Rightarrow> addr list \<Rightarrow> (string, addr) std_map
    \<Rightarrow> (string, addr) std_map option" where
  "map_by_ID h [] m = Some m"
| "map_by_ID h (a # as) m =
     (case ID (h a) of None \<Rightarrow> None | Some i \<Rightarrow> map_by_ID h as (map_assign i a m))"

definition UpdateNodeIDs :: "scene \<Rightarrow> scene option" where
  "UpdateNodeIDs s =
     (if CurrentScene s = []
      then Some (s\<lparr>NodeIDs := [], NodeIDsMTime := CurrentSceneMTime s\<rparr>)
      else if NodeIDsMTime s < CurrentSceneMTime s
      then (case map_by_ID (heap s) (CurrentScene s) [] of
              None \<Rightarrow> None
            | Some m \<Rightarrow> Some (s\<lparr>NodeIDs := m, NodeIDsMTime := CurrentSceneMTime s\<rparr>))
      else Some (s\<lparr>NodeIDsMTime := CurrentSceneMTime s\<rparr>))"

definition GetNodeByID :: "scene \<Rightarrow> string option \<Rightarrow> (addr option \<times> scene) option" where
  "GetNodeByID s nid =
     (case nid of
        None \<Rightarrow> Some (None, s)
      | Some i \<Rightarrow>
          (case UpdateNodeIDs s of
             None \<Rightarrow> None
           | Some s' \<Rightarrow> Some (map_of (NodeIDs s') i, s')))"


text \<open>
  \<open>GetUniqueIDIndexByClassFromIndex\<close> counts the index up from the hint until the candidate
  is no ID of the scene. Nothing bounds the loop: past the largest \<open>int\<close> the index goes on
  from the smallest, and while every candidate is taken the function does not return.
  Here \<open>None\<close> stands for both ways of giving no result, undefined behaviour and a loop
  that never ends.
\<close>

partial_function (option) GetUniqueIDIndexByClassFromIndex ::
    "scene \<Rightarrow> string \<Rightarrow> c_int \<Rightarrow> (c_int \<times> scene) option" where
  "GetUniqueIDIndexByClassFromIndex s className index =
     (case GetNodeByID s (Some (candidateName className index)) of
        None \<Rightarrow> None
      | Some (None, s') \<Rightarrow> Some (index, s')
      | Some (Some found, s') \<Rightarrow> GetUniqueIDIndexByClassFromIndex s' className (index + 1))"

definition GetUniqueIDIndexByClass :: "scene \<Rightarrow> string \<Rightarrow> (c_int \<times> scene) option" where
  "GetUniqueIDIndexByClass s className =
     (let hint = (case map_of (UniqueIDByClass s) className of None \<Rightarrow> 1 | Some h \<Rightarrow> h)
      in case GetUniqueIDIndexByClassFromIndex s className hint of
           None \<Rightarrow> None
         | Some (index, s') \<Rightarrow>
             Some (index,
               s'\<lparr>UniqueIDByClass := map_assign className (index + 1) (UniqueIDByClass s')\<rparr>))"

subsection \<open>Adding and removing nodes\<close>

definition GetNumberOfNodesByClass :: "scene \<Rightarrow> string \<Rightarrow> nat" where
  "GetNumberOfNodesByClass s className =
     length (filter (\<lambda>a. IsA (heap s a) className) (CurrentScene s))"

fun nth_by_class :: "(addr \<Rightarrow> node) \<Rightarrow> addr list \<Rightarrow> nat \<Rightarrow> nat \<Rightarrow> string \<Rightarrow> addr option" where
  "nth_by_class h [] num n className = None"
| "nth_by_class h (a # as) num n className =
     (if IsA (h a) className
      then (if num = n then Some a else nth_by_class h as (Suc num) n className)
      else nth_by_class h as num n className)"

definition GetNthNodeByClass :: "scene \<Rightarrow> nat \<Rightarrow> string \<Rightarrow> addr option" where
  "GetNthNodeByClass s n className = nth_by_class (heap s) (CurrentScene s) 0 n className"

text \<open>
  The singleton search of \<open>AddNodeNoNotify\<close>: for \<open>i\<close> below the number of nodes of the
  class, the \<open>i\<close>-th node of the class is compared by its singleton tag. The outer option
  is the \<open>NULL\<close> dereference the source would make if \<open>GetNthNodeByClass\<close> answered \<open>NULL\<close>.
\<close>

fun find_singleton :: "scene \<Rightarrow> addr \<Rightarrow> nat list \<Rightarrow> addr option option" where
  "find_singleton s n [] = Some None"
| "find_singleton s n (i # is) =
     (case GetNthNodeByClass s i (ClassName (heap s n)) of
        None \<Rightarrow> None
      | Some sn \<Rightarrow>
          if SingletonTag (heap s sn) \<noteq> None \<and> SingletonTag (heap s sn) = SingletonTag (heap s n)
          then Some (Some sn)
          else find_singleton s n is)"

definition RemoveNodeReferences :: "addr \<Rightarrow> scene \<Rightarrow> scene" where
  "RemoveNodeReferences n s =
     s\<lparr>References :=
         filter (\<lambda>(rid, node).
             case node of
               None \<Rightarrow> False
             | Some a \<Rightarrow> ID (heap s a) \<noteq> None \<and> ID (heap s n) \<noteq> None
                          \<and> ID (heap s a) \<noteq> ID (heap s n))
           (References s)\<rparr>"

definition set_node :: "addr \<Rightarrow> node \<Rightarrow> scene \<Rightarrow> scene" where
  "set_node a v s = s\<lparr>heap := (heap s)(a := v)\<rparr>"

definition assign_unique_ID :: "addr \<Rightarrow> scene \<Rightarrow> scene option" where
  "assign_unique_ID n s =
     (let oldID = (case ID (heap s n) of None \<Rightarrow> [] | Some i \<Rightarrow> i);
          className = ClassName (heap s n)
      in case GetUniqueIDIndexByClass s className of
           None \<Rightarrow> None
         | Some (index, s1) \<Rightarrow>
             (let s2 = set_node n (ConstructAndSetID className index (heap s1 n)) s1
              in case ID (heap s2 n) of
                   None \<Rightarrow> None
                 | Some newID \<Rightarrow>
                     Some (if oldID \<noteq> newID
                           then s2\<lparr>ReferencedIDChanges :=
                                     map_assign oldID newID (ReferencedIDChanges s2)\<rparr>
                           else s2)))"

definition insert_node :: "addr \<Rightarrow> scene \<Rightarrow> scene" where
  "insert_node n s =
     (let n1 = (heap s n)\<lparr>SceneRootDir := Some (RootDirectory s)\<rparr>;
          n2 = (if Name n1 = None \<or> Name n1 = Some [] then n1\<lparr>Name := ID n1\<rparr> else n1);
          n3 = n2\<lparr>InScene := True\<rparr>
      in AddItem n (set_node n n3 s))"

definition AddNodeNoNotify :: "addr \<Rightarrow> scene \<Rightarrow> (addr option \<times> scene) option" where
  "AddNodeNoNotify n s =
     (if \<not> AddToScene (heap s n) then Some (None, s)
      else
        case (if SingletonTag (heap s n) \<noteq> None
              then find_singleton s n [0 ..< GetNumberOfNodesByClass s (ClassName (heap s n))]
              else Some None) of
          None \<Rightarrow> None
        | Some (Some sn) \<Rightarrow>
            Some (Some sn,
              RemoveNodeReferences n
                (set_node sn (CopyWithSceneWithSingleModifiedEvent (heap s sn) (heap s n)) s))
        | Some None \<Rightarrow>
            (case (if ID (heap s n) = None \<or> ID (heap s n) = Some [] then Some (True, s)
                   else case GetNodeByID s (ID (heap s n)) of
                          None \<Rightarrow> None
                        | Some (r, s1) \<Rightarrow> Some (r \<noteq> None, s1)) of
               None \<Rightarrow> None
             | Some (taken, s1) \<Rightarrow>
                 (case (if taken then assign_unique_ID n s1 else Some s1) of
                    None \<Rightarrow> None
                  | Some s2 \<Rightarrow> Some (Some n, insert_node n s2))))"

definition AddNode :: "addr \<Rightarrow> scene \<Rightarrow> (addr option \<times> scene) option" where
  "AddNode n s = (if \<not> AddToScene (heap s n) then Some (None, s) else AddNodeNoNotify n s)"

text \<open>
  \<open>RemoveNode\<close> ends with \<open>UpdateReferences()\<close> on every node left; the base class has
  nothing to update, and what a subclass would clear is part of \<open>Contents\<close>, which no
  operation of the scene reads.
\<close>

definition RemoveNode :: "addr option \<Rightarrow> scene \<Rightarrow> scene" where
  "RemoveNode n s = (case n of None \<Rightarrow> s | Some a \<Rightarrow> RemoveNodeReferences a (RemoveItem a s))"


subsection \<open>Undo and redo\<close>

text \<open>
  An entry of the undo or redo stack is a collection of pointers to the nodes the scene
  held when it was pushed; \<open>push_back\<close> appends, \<open>back\<close> is the last entry. A node that is
  about to change is replaced in the top entry by a new object holding a copy of it.
  \<open>back()\<close> of an empty list is undefined behaviour and stops the model with \<open>None\<close>.
\<close>

definition PushIntoUndoStack :: "scene \<Rightarrow> scene" where
  "PushIntoUndoStack s = s\<lparr>UndoStack := UndoStack s @ [CurrentScene s]\<rparr>"

definition PushIntoRedoStack :: "scene \<Rightarrow> scene" where
  "PushIntoRedoStack s = s\<lparr>RedoStack := RedoStack s @ [CurrentScene s]\<rparr>"

definition new_copy :: "addr \<Rightarrow> scene \<Rightarrow> addr \<times> scene" where
  "new_copy copyNode s =
     (let snode = NextNode s;
          v = CopyWithSceneWithSingleModifiedEvent
                (CreateNodeInstance (heap s copyNode)) (heap s copyNode)
      in (snode, (set_node snode v s)\<lparr>NextNode := Suc snode\<rparr>))"

definition ReplaceItems :: "addr \<Rightarrow> addr \<Rightarrow> addr list \<Rightarrow> addr list" where
  "ReplaceItems copyNode snode items = map (\<lambda>x. if x = copyNode then snode else x) items"

definition CopyNodeInUndoStack :: "addr \<Rightarrow> scene \<Rightarrow> scene option" where
  "CopyNodeInUndoStack copyNode s =
     (case new_copy copyNode s of
        (snode, s1) \<Rightarrow>
          if UndoStack s1 = [] then None
          else Some (s1\<lparr>UndoStack :=
                 butlast (UndoStack s1) @ [ReplaceItems copyNode snode (last (UndoStack s1))]\<rparr>))"

definition CopyNodeInRedoStack :: "addr \<Rightarrow> scene \<Rightarrow> scene option" where
  "CopyNodeInRedoStack copyNode s =
     (case new_copy copyNode s of
        (snode, s1) \<Rightarrow>
          if RedoStack s1 = [] then None
          else Some (s1\<lparr>RedoStack :=
                 butlast (RedoStack s1) @ [ReplaceItems copyNode snode (last (RedoStack s1))]\<rparr>))"

definition ClearUndoStack :: "scene \<Rightarrow> scene" where
  "ClearUndoStack s = s\<lparr>UndoStack := []\<rparr>"

definition ClearRedoStack :: "scene \<Rightarrow> scene" where
  "ClearRedoStack s = s\<lparr>RedoStack := []\<rparr>"

definition SaveStateForUndo :: "addr option \<Rightarrow> scene \<Rightarrow> scene option" where
  "SaveStateForUndo node s =
     (if InUndo s then Some s
      else
        (let s1 = PushIntoUndoStack ((ClearRedoStack s)\<lparr>UndoFlag := True\<rparr>)
         in case node of None \<Rightarrow> Some s1 | Some a \<Rightarrow> CopyNodeInUndoStack a s1))"

text \<open>
  \<open>Undo\<close> and \<open>Redo\<close> run the same three loops, one on the undo stack and one on the redo
  stack. The first loop walks the saved map in key order: a saved node whose ID the
  current scene lacks is collected in \<open>addNodes\<close>; where the ID is in both maps and the
  objects differ, the current node is first copied into the other stack and then
  overwritten with the saved node. The second loop collects the current nodes whose ID
  the saved map lacks. Then the collected nodes are added and removed.
\<close>

fun copy_back :: "(addr \<Rightarrow> scene \<Rightarrow> scene option) \<Rightarrow> (string, addr) std_map
    \<Rightarrow> (string \<times> addr) list \<Rightarrow> scene \<Rightarrow> addr list \<Rightarrow> (scene \<times> addr list) option" where
  "copy_back keep currentMap [] s addNodes = Some (s, addNodes)"
| "copy_back keep currentMap ((k, u) # es) s addNodes =
     (case map_of currentMap k of
        None \<Rightarrow> copy_back keep currentMap es s (addNodes @ [u])
      | Some c \<Rightarrow>
          if u \<noteq> c
          then (case keep c s of
                  None \<Rightarrow> None
                | Some s1 \<Rightarrow>
                    copy_back keep currentMap es
                      (set_node c (CopyWithSceneWithSingleModifiedEvent (heap s1 c) (heap s1 u)) s1)
                      addNodes)
          else copy_back keep currentMap es s addNodes)"

definition nodes_to_remove :: "(string, addr) std_map \<Rightarrow> (string, addr) std_map \<Rightarrow> addr list" where
  "nodes_to_remove currentMap undoMap =
     map snd (filter (\<lambda>(k, c). map_of undoMap k = None) currentMap)"

fun add_nodes :: "addr list \<Rightarrow> scene \<Rightarrow> scene option" where
  "add_nodes [] s = Some s"
| "add_nodes (n # ns) s =
     (case AddNode n s of None \<Rightarrow> None | Some (r, s1) \<Rightarrow> add_nodes ns s1)"

fun remove_nodes :: "addr list \<Rightarrow> scene \<Rightarrow> scene" where
  "remove_nodes [] s = s"
| "remove_nodes (n # ns) s = remove_nodes ns (RemoveNode (Some n) s)"

definition Undo :: "scene \<Rightarrow> scene option" where
  "Undo s =
     (if UndoStack s = [] then Some s
      else
        (let s1 = PushIntoRedoStack (s\<lparr>InUndo := True\<rparr>)
         in case map_by_ID (heap s1) (CurrentScene s1) [] of
              None \<Rightarrow> None
            | Some currentMap \<Rightarrow>
          (case map_by_ID (heap s1) (last (UndoStack s1)) [] of
              None \<Rightarrow> None
            | Some undoMap \<Rightarrow>
          (case copy_back CopyNodeInRedoStack currentMap undoMap s1 [] of
              None \<Rightarrow> None
            | Some (s2, addNodes) \<Rightarrow>
          (case add_nodes addNodes s2 of
              None \<Rightarrow> None
            | Some s3 \<Rightarrow>
                (let s4 = remove_nodes (nodes_to_remove currentMap undoMap) s3;
                     s5 = (if UndoStack s4 \<noteq> []
                           then s4\<lparr>UndoStack := butlast (UndoStack s4)\<rparr> else s4)
                 in Some (s5\<lparr>InUndo := False\<rparr>)))))))"

definition Redo :: "scene \<Rightarrow> scene option" where
  "Redo s =
     (if RedoStack s = [] then Some s
      else
        (let s1 = PushIntoUndoStack s
         in case map_by_ID (heap s1) (CurrentScene s1) [] of
              None \<Rightarrow> None
            | Some currentMap \<Rightarrow>
          (case map_by_ID (heap s1) (last (RedoStack s1)) [] of
              None \<Rightarrow> None
            | Some undoMap \<Rightarrow>
          (case copy_back CopyNodeInUndoStack currentMap undoMap s1 [] of
              None \<Rightarrow> None
            | Some (s2, addNodes) \<Rightarrow>
          (case add_nodes addNodes s2 of
              None \<Rightarrow> None
            | Some s3 \<Rightarrow>
                (let s4 = remove_nodes (nodes_to_remove currentMap undoMap) s3
                 in if RedoStack s4 = [] then None
                    else Some (s4\<lparr>RedoStack := butlast (RedoStack s4)\<rparr>)))))))"

subsection \<open>Clearing the scene\<close>

text \<open>
  \<open>Reset\<close> is a virtual method of the node classes and is a parameter here.
  \<open>ClearReferencedNodeID\<close> is defined in the scene's header; it empties the reference
  lists.
\<close>

definition RemoveAllNodesExceptSingletons :: "scene \<Rightarrow> scene" where
  "RemoveAllNodesExceptSingletons s =
     (let removeNodes = filter (\<lambda>a. SingletonTag (heap s a) = None) (CurrentScene s)
      in fold RemoveItem removeNodes s)"

definition ResetNodes :: "(node \<Rightarrow> node) \<Rightarrow> scene \<Rightarrow> scene" where
  "ResetNodes Reset s = fold (\<lambda>a s'. set_node a (Reset (heap s' a)) s') (CurrentScene s) s"

definition ClearReferencedNodeID :: "scene \<Rightarrow> scene" where
  "ClearReferencedNodeID s = s\<lparr>References := [], ReferencedIDChanges := []\<rparr>"

definition Clear :: "(node \<Rightarrow> node) \<Rightarrow> int \<Rightarrow> scene \<Rightarrow> scene" where
  "Clear Reset removeSingletons s =
     (let s1 = s\<lparr>UndoFlag := False\<rparr>;
          s2 = (if removeSingletons = 0
                then ResetNodes Reset (RemoveAllNodesExceptSingletons s1)
                else RemoveAllItems s1);
          s3 = ClearRedoStack (ClearUndoStack (ClearReferencedNodeID s2));
          s4 = s3\<lparr>UniqueIDByClass := []\<rparr>
      in s4\<lparr>UndoFlag := True\<rparr>)"

subsection \<open>Writing the scene\<close>

text \<open>
  \<open>Commit\<close> writes through an \<open>ofstream\<close>. The file system is a map from paths to
  contents, and \<open>can_open\<close> tells for which paths \<open>file.open\<close> succeeds; opening for
  output truncates. \<open>WriteXML\<close> and \<open>WriteNodeBodyXML\<close> are virtual methods of the node
  classes: they are parameters that give the text a node writes at an indentation.
  Printing a \<open>vtkIndent\<close> writes as many blanks as its value. The error codes are those
  of \<open>vtkErrorCode\<close>; which one is set depends on the VTK version the scene is compiled
  against.
\<close>

type_synonym files = "string \<Rightarrow> string option"

definition vtkIndent :: "int \<Rightarrow> string" where
  "vtkIndent indent = replicate (nat indent) CHR '' ''"

definition NoError :: nat where
  "NoError = 0"

definition CannotOpenFileError :: nat where
  "CannotOpenFileError = 20002"

fun write_nodes :: "(node \<Rightarrow> int \<Rightarrow> string) \<Rightarrow> (node \<Rightarrow> int \<Rightarrow> string) \<Rightarrow> (addr \<Rightarrow> node)
    \<Rightarrow> addr list \<Rightarrow> int \<Rightarrow> string" where
  "write_nodes WriteXML WriteNodeBodyXML h [] indent = []"
| "write_nodes WriteXML WriteNodeBodyXML h (a # as) indent =
     (let node = h a
      in if \<not> SaveWithScene node then write_nodes WriteXML WriteNodeBodyXML h as indent
         else
           (let deltaIndent = Indent node;
                indent1 = (if deltaIndent < 0 then indent - 2 else indent);
                vindent = vtkIndent indent1;
                element = vindent @ ''<'' @ NodeTagName node @ [CHR 0x0A]
                  @ WriteXML node indent1
                  @ vindent @ ''>'' @ WriteNodeBodyXML node indent1
                  @ ''</'' @ NodeTagName node @ ''>'' @ [CHR 0x0A];
                indent2 = (if deltaIndent > 0 then indent1 + 2 else indent1)
            in element @ write_nodes WriteXML WriteNodeBodyXML h as indent2))"

definition Commit :: "nat \<Rightarrow> (string \<Rightarrow> bool) \<Rightarrow> (node \<Rightarrow> int \<Rightarrow> string)
    \<Rightarrow> (node \<Rightarrow> int \<Rightarrow> string) \<Rightarrow> string option \<Rightarrow> scene \<Rightarrow> files
    \<Rightarrow> int \<times> scene \<times> files" where
  "Commit VTK_MAJOR_VERSION can_open WriteXML WriteNodeBodyXML url s fs =
     (let path = (case url of None \<Rightarrow> URL s | Some u \<Rightarrow> u)
      in if \<not> can_open path
         then (1, s\<lparr>ErrorCode := (if VTK_MAJOR_VERSION \<le> 5 then 2 else CannotOpenFileError)\<rparr>,
               fs)
         else
           (let text = ''<MRML>'' @ [CHR 0x0A]
                  @ write_nodes WriteXML WriteNodeBodyXML (heap s) (CurrentScene s) 0
                  @ ''</MRML>'' @ [CHR 0x0A]
            in (1, s\<lparr>ErrorCode := (if VTK_MAJOR_VERSION \<le> 5 then 0 else NoError)\<rparr>,
                fs(path := Some text))))"

section \<open>Example scenes\<close>

text \<open>
  The state a scene has after its constructor, over a heap of existing nodes, and nodes
  in the state an application hands them to the scene.
\<close>

definition New :: "(addr \<Rightarrow> node) \<Rightarrow> addr \<Rightarrow> scene" where
  "New h nx =
     \<lparr>heap = h, NextNode = nx, CurrentScene = [], CurrentSceneMTime = 1, NodeIDs = [],
      NodeIDsMTime = 0, UndoStack = [], RedoStack = [], UndoFlag = True, InUndo = False,
      UniqueIDByClass = [], References = [], ReferencedIDChanges = [], ErrorCode = 0,
      RootDirectory = [], URL = []\<rparr>"

definition example_node :: "string \<Rightarrow> string option \<Rightarrow> string option \<Rightarrow> node" where
  "example_node className nid tag =
     \<lparr>ID = nid, Name = None, ClassName = className, SuperClassNames = [''vtkMRMLNode''],
      NodeTagName = className, SingletonTag = tag, AddToScene = True, SaveWithScene = True,
      Indent = 0, SceneRootDir = None, InScene = False, Contents = []\<rparr>"

definition example_heap :: "addr \<Rightarrow> node" where
  "example_heap a =
     (if a = 0 then example_node ''View'' (Some ''View1'') (Some ''Main'')
      else if a = 1 then (example_node ''Model'' (Some ''Model1'') None)\<lparr>SaveWithScene := False\<rparr>
      else if a = 2 then example_node ''Model'' (Some ''Model2'') None
      else if a = 3 then example_node ''View'' (Some ''Model2'') (Some ''Main'')
      else if a = 4 then example_node ''Model'' None None
      else if a = 5 then (example_node ''View'' None (Some ''Main''))\<lparr>AddToScene := False\<rparr>
      else example_node ''View'' None (Some ''Main''))"

definition example_scene :: scene where
  "example_scene =
     (New example_heap 7)
       \<lparr>CurrentScene := [0, 1, 2], CurrentSceneMTime := 4, UndoStack := [[0]],
        RedoStack := [[0, 1]], UniqueIDByClass := [(''Model'', 3), (''View'', 2)],
        URL := ''scene.mrml''\<rparr>"

definition camera_heap :: "addr \<Rightarrow> node" where
  "camera_heap a =
     (if a = 0 then example_node ''Camera'' None (Some ''Default'')
      else if a = 1 then example_node ''Camera'' None None
      else example_node ''Camera'' (Some ''Camera2'') (Some ''Default''))"









section \<open>Writing the scene: what \<open>Commit\<close> produces\<close>

text \<open>
  The document described in words: one element per node of a list, each at the
  indentation the nodes before it leave. \<open>Commit\<close> is compared with this function applied
  to the nodes that are saved with the scene.
\<close>

fun saved_elements :: "(node \<Rightarrow> int \<Rightarrow> string) \<Rightarrow> (node \<Rightarrow> int \<Rightarrow> string) \<Rightarrow> node list
    \<Rightarrow> int \<Rightarrow> string list" where
  "saved_elements WriteXML WriteNodeBodyXML [] indent = []"
| "saved_elements WriteXML WriteNodeBodyXML (node # nodes) indent =
     (let indent1 = (if Indent node < 0 then indent - 2 else indent);
          indent2 = (if Indent node > 0 then indent1 + 2 else indent1)
      in (vtkIndent indent1 @ ''<'' @ NodeTagName node @ [CHR 0x0A]
            @ WriteXML node indent1
            @ vtkIndent indent1 @ ''>'' @ WriteNodeBodyXML node indent1
            @ ''</'' @ NodeTagName node @ ''>'' @ [CHR 0x0A])
         # saved_elements WriteXML WriteNodeBodyXML nodes indent2)"

lemma write_nodes_filter:
  "write_nodes wx wb h as i = concat (saved_elements wx wb (filter SaveWithScene (map h as)) i)"
  by (induction as arbitrary: i) (simp_all add: Let_def)

lemma length_saved_elements: "length (saved_elements wx wb ns i) = length ns"
  by (induction ns arbitrary: i) (simp_all add: Let_def)

text \<open>
  Claim C5. When the file can be opened, \<open>Commit\<close> leaves in it \<open><MRML>\<close>, then one element
  for each node whose \<open>SaveWithScene\<close> flag is set, in scene order, tagged with the node's
  tag name around the attributes and the body the node writes, then \<open></MRML>\<close>; the nodes
  whose flag is unset contribute nothing.
\<close>

theorem Commit_writes_saved_nodes:
  assumes "can_open (case url of None \<Rightarrow> URL s | Some u \<Rightarrow> u)"
  shows "snd (snd (Commit v can_open wx wb url s fs)) (case url of None \<Rightarrow> URL s | Some u \<Rightarrow> u)
           = Some (''<MRML>'' @ [CHR 0x0A]
               @ concat (saved_elements wx wb
                   (filter SaveWithScene (map (heap s) (CurrentScene s))) 0)
               @ ''</MRML>'' @ [CHR 0x0A])
         \<and> length (saved_elements wx wb
                   (filter SaveWithScene (map (heap s) (CurrentScene s))) 0)
           = length (filter (\<lambda>a. SaveWithScene (heap s a)) (CurrentScene s))"
  using assms
  by (simp add: Commit_def Let_def write_nodes_filter length_saved_elements filter_map o_def)

theorem Commit_writes_saved_nodes_witness:
  "(\<lambda>p. p = ''scene.mrml'') (case None of None \<Rightarrow> URL example_scene | Some u \<Rightarrow> u)
   \<and> snd (snd (Commit 5 (\<lambda>p. p = ''scene.mrml'') (\<lambda>n i. Contents n) (\<lambda>n i. []) None example_scene
         (\<lambda>p. None))) ''scene.mrml''
     = Some (''<MRML>'' @ [CHR 0x0A] @ ''<View'' @ [CHR 0x0A] @ ''></View>'' @ [CHR 0x0A]
        @ ''<Model'' @ [CHR 0x0A] @ ''></Model>'' @ [CHR 0x0A] @ ''</MRML>'' @ [CHR 0x0A])"
  using Commit_writes_saved_nodes [where can_open = "\<lambda>p. p = ''scene.mrml''" and url = None
      and s = example_scene and v = 5 and wx = "\<lambda>n i. Contents n" and wb = "\<lambda>n i. []"
      and fs = "\<lambda>p. None"]
  by (simp add: example_scene_def example_heap_def New_def example_node_def vtkIndent_def)

text \<open>
  Claim C10. \<open>Commit\<close> answers 1 whether or not the file could be opened. When it could
  not, the error code is set to a nonzero value and no file is touched; when it could, the
  error code is zero afterwards.
\<close>

theorem Commit_returns_1:
  "fst (Commit v can_open wx wb url s fs) = 1
   \<and> (\<not> can_open (case url of None \<Rightarrow> URL s | Some u \<Rightarrow> u) \<longrightarrow>
        ErrorCode (fst (snd (Commit v can_open wx wb url s fs))) \<noteq> 0
        \<and> snd (snd (Commit v can_open wx wb url s fs)) = fs)
   \<and> (can_open (case url of None \<Rightarrow> URL s | Some u \<Rightarrow> u) \<longrightarrow>
        ErrorCode (fst (snd (Commit v can_open wx wb url s fs))) = 0)"
  by (simp add: Commit_def Let_def CannotOpenFileError_def NoError_def)

theorem Commit_returns_1_witness:
  "\<not> (\<lambda>p. False) (case None of None \<Rightarrow> URL example_scene | Some u \<Rightarrow> u)
   \<and> fst (Commit 5 (\<lambda>p. False) (\<lambda>n i. Contents n) (\<lambda>n i. []) None example_scene (\<lambda>p. None)) = 1
   \<and> ErrorCode (fst (snd (Commit 5 (\<lambda>p. False) (\<lambda>n i. Contents n) (\<lambda>n i. []) None
        example_scene (\<lambda>p. None)))) = 2
   \<and> snd (snd (Commit 5 (\<lambda>p. False) (\<lambda>n i. Contents n) (\<lambda>n i. []) None example_scene
        (\<lambda>p. None))) = (\<lambda>p. None)
   \<and> (\<lambda>p. True) (case None of None \<Rightarrow> URL example_scene | Some u \<Rightarrow> u)
   \<and> fst (Commit 5 (\<lambda>p. True) (\<lambda>n i. Contents n) (\<lambda>n i. []) None example_scene (\<lambda>p. None)) = 1
   \<and> ErrorCode (fst (snd (Commit 5 (\<lambda>p. True) (\<lambda>n i. Contents n) (\<lambda>n i. []) None
        example_scene (\<lambda>p. None)))) = 0"
  using Commit_returns_1 [where v = 5 and can_open = "\<lambda>p. False" and wx = "\<lambda>n i. Contents n"
      and wb = "\<lambda>n i. []" and url = None and s = example_scene and fs = "\<lambda>p. None"]
    Commit_returns_1 [where v = 5 and can_open = "\<lambda>p. True" and wx = "\<lambda>n i. Contents n"
      and wb = "\<lambda>n i. []" and url = None and s = example_scene and fs = "\<lambda>p. None"]
  by (simp add: Commit_def)

section \<open>Clearing the scene: what \<open>Clear\<close> leaves\<close>

lemma fold_remove1_Cons: "x \<notin> set rs \<Longrightarrow> fold remove1 rs (x # ys) = x # fold remove1 rs ys"
  by (induction rs arbitrary: ys) auto

lemma fold_remove1_filter: "fold remove1 (filter P xs) xs = filter (\<lambda>x. \<not> P x) xs"
  by (induction xs) (simp_all add: fold_remove1_Cons)

lemma CurrentScene_fold_RemoveItem:
  "CurrentScene (fold RemoveItem rs s) = fold remove1 rs (CurrentScene s)"
  by (induction rs arbitrary: s) (simp_all add: RemoveItem_def remove1_idem)

lemma heap_fold_RemoveItem: "heap (fold RemoveItem rs s) = heap s"
  by (induction rs arbitrary: s) (simp_all add: RemoveItem_def)

lemma CurrentScene_fold_set_node:
  "CurrentScene (fold (\<lambda>a s'. set_node a (f (heap s' a)) s') as s) = CurrentScene s"
  by (induction as arbitrary: s) (simp_all add: set_node_def)

lemma heap_fold_set_node:
  "heap (fold (\<lambda>a s'. set_node a (f (heap s' a)) s') as s) a = (f ^^ count_list as a) (heap s a)"
  by (induction as arbitrary: s) (simp_all add: set_node_def funpow_swap1)

text \<open>
  Claim C9. \<open>Clear(0)\<close> leaves in the scene, in their order, exactly the nodes that carry a
  singleton tag, and each of them has been \<open>Reset\<close> (once for each time it stands in the
  collection; the other objects are untouched); \<open>Clear\<close> with a nonzero argument leaves
  no node. Either way the undo stack, the redo stack and the table of unique ID indices
  are empty afterwards.
\<close>

theorem Clear_removes_nodes:
  "CurrentScene (Clear Reset 0 s) = filter (\<lambda>a. SingletonTag (heap s a) \<noteq> None) (CurrentScene s)
   \<and> heap (Clear Reset 0 s) a
       = (Reset ^^ count_list (filter (\<lambda>a. SingletonTag (heap s a) \<noteq> None) (CurrentScene s)) a)
           (heap s a)
   \<and> (r \<noteq> 0 \<longrightarrow> CurrentScene (Clear Reset r s) = [])
   \<and> UndoStack (Clear Reset r s) = [] \<and> RedoStack (Clear Reset r s) = []
   \<and> UniqueIDByClass (Clear Reset r s) = []"
  by (simp add: Clear_def Let_def ResetNodes_def RemoveAllNodesExceptSingletons_def
      ClearUndoStack_def ClearRedoStack_def ClearReferencedNodeID_def RemoveAllItems_def
      CurrentScene_fold_set_node heap_fold_set_node CurrentScene_fold_RemoveItem
      heap_fold_RemoveItem fold_remove1_filter)

theorem Clear_removes_nodes_witness:
  "CurrentScene (Clear (\<lambda>n. n\<lparr>Contents := ''reset''\<rparr>) 0 example_scene) = [0]
   \<and> Contents (heap (Clear (\<lambda>n. n\<lparr>Contents := ''reset''\<rparr>) 0 example_scene) 0) = ''reset''
   \<and> (1::int) \<noteq> 0
   \<and> CurrentScene (Clear (\<lambda>n. n\<lparr>Contents := ''reset''\<rparr>) 1 example_scene) = []
   \<and> UndoStack (Clear (\<lambda>n. n\<lparr>Contents := ''reset''\<rparr>) 1 example_scene) = []
   \<and> RedoStack (Clear (\<lambda>n. n\<lparr>Contents := ''reset''\<rparr>) 1 example_scene) = []
   \<and> UniqueIDByClass (Clear (\<lambda>n. n\<lparr>Contents := ''reset''\<rparr>) 1 example_scene) = []"
  using Clear_removes_nodes [where Reset = "\<lambda>n. n\<lparr>Contents := ''reset''\<rparr>" and s = example_scene
      and r = 1 and a = 0]
  by (simp add: example_scene_def example_heap_def New_def example_node_def)

section \<open>Undo and redo on an empty stack\<close>

text \<open>
  Claim C7. With an empty undo stack \<open>Undo\<close> returns at once and the scene is what it
  was: the node collection, both stacks and everything else. \<open>Redo\<close> does the same with
  an empty redo stack.
\<close>

theorem Undo_Redo_empty_stack:
  "(UndoStack s = [] \<longrightarrow> Undo s = Some s) \<and> (RedoStack s = [] \<longrightarrow> Redo s = Some s)"
  by (simp add: Undo_def Redo_def)

theorem Undo_Redo_empty_stack_witness:
  "UndoStack (New (\<lambda>a. example_node ''Model'' None None) 0) = []
   \<and> Undo (New (\<lambda>a. example_node ''Model'' None None) 0)
       = Some (New (\<lambda>a. example_node ''Model'' None None) 0)
   \<and> RedoStack (New (\<lambda>a. example_node ''Model'' None None) 0) = []
   \<and> Redo (New (\<lambda>a. example_node ''Model'' None None) 0)
       = Some (New (\<lambda>a. example_node ''Model'' None None) 0)"
  using Undo_Redo_empty_stack [of "New (\<lambda>a. example_node ''Model'' None None) 0"]
  by (simp add: New_def)


section \<open>Adding a node: how \<open>AddNode\<close> ends\<close>


lemma map_of_map_assign: "map_of (map_assign k v m) = (map_of m)(k \<mapsto> v)"
  by (induction m) (auto simp: fun_eq_iff)

lemma keys_map_assign: "fst ` set (map_assign k v m) = insert k (fst ` set m)"
  by (induction m) auto

lemma sorted_map_assign:
  "sorted_wrt (<) (map fst m) \<Longrightarrow> sorted_wrt (<) (map fst (map_assign k v m))"
  by (induction m) (auto simp: keys_map_assign)

lemma find_append_cases:
  "find P (xs @ ys) = (case find P xs of None \<Rightarrow> find P ys | Some x \<Rightarrow> Some x)"
  by (induction xs) auto

definition lookup_ID :: "(addr \<Rightarrow> node) \<Rightarrow> addr list \<Rightarrow> string \<Rightarrow> addr option" where
  "lookup_ID h as i = find (\<lambda>a. ID (h a) = Some i) (rev as)"

lemma map_by_ID_None: "map_by_ID h as m = None \<longleftrightarrow> (\<exists>a\<in>set as. ID (h a) = None)"
  by (induction as arbitrary: m) (auto split: option.splits)

lemma map_by_ID_Some:
  "map_by_ID h as m = Some m' \<Longrightarrow>
     map_of m' i = (case lookup_ID h as i of None \<Rightarrow> map_of m i | Some a \<Rightarrow> Some a)"
proof (induction as arbitrary: m)
  case Nil
  then show ?case by (simp add: lookup_ID_def)
next
  case (Cons a as)
  then obtain j where j: "ID (h a) = Some j" and r: "map_by_ID h as (map_assign j a m) = Some m'"
    by (auto split: option.splits)
  from Cons.IH [OF r] show ?case
    using j by (auto simp: lookup_ID_def map_of_map_assign find_append_cases split: option.splits)
qed

lemma map_by_ID_sorted:
  "map_by_ID h as m = Some m' \<Longrightarrow> sorted_wrt (<) (map fst m) \<Longrightarrow> sorted_wrt (<) (map fst m')"
  by (induction as arbitrary: m) (auto split: option.splits simp: sorted_map_assign)

lemma map_by_ID_values:
  "map_by_ID h as m = Some m' \<Longrightarrow> snd ` set m' \<subseteq> snd ` set m \<union> set as"
proof (induction as arbitrary: m)
  case Nil then show ?case by simp
next
  case (Cons a as)
  then obtain j where j: "ID (h a) = Some j" and r: "map_by_ID h as (map_assign j a m) = Some m'"
    by (auto split: option.splits)
  have "snd ` set (map_assign j a m) \<subseteq> insert a (snd ` set m)"
    by (induction m) auto
  with Cons.IH [OF r] show ?case by auto
qed


definition has_IDs :: "scene \<Rightarrow> bool" where
  "has_IDs s = list_all (\<lambda>a. ID (heap s a) \<noteq> None) (CurrentScene s)"

definition cache_ok :: "scene \<Rightarrow> bool" where
  "cache_ok s = (CurrentScene s = [] \<or> NodeIDsMTime s < CurrentSceneMTime s
     \<or> map_of (NodeIDs s) = lookup_ID (heap s) (CurrentScene s))"

lemma UpdateNodeIDs_ok:
  assumes "has_IDs s" "cache_ok s"
  shows "\<exists>m. UpdateNodeIDs s = Some (s\<lparr>NodeIDs := m, NodeIDsMTime := CurrentSceneMTime s\<rparr>)
           \<and> map_of m = lookup_ID (heap s) (CurrentScene s)"
proof (cases "CurrentScene s = []")
  case True
  then have "UpdateNodeIDs s = Some (s\<lparr>NodeIDs := [], NodeIDsMTime := CurrentSceneMTime s\<rparr>)"
    by (simp add: UpdateNodeIDs_def)
  moreover have "map_of [] = lookup_ID (heap s) (CurrentScene s)"
    using True by (simp add: lookup_ID_def fun_eq_iff)
  ultimately show ?thesis by blast
next
  case ne: False
  show ?thesis
  proof (cases "NodeIDsMTime s < CurrentSceneMTime s")
    case True
    from assms(1) have "map_by_ID (heap s) (CurrentScene s) [] \<noteq> None"
      by (simp add: map_by_ID_None has_IDs_def list_all_iff)
    then obtain m where m: "map_by_ID (heap s) (CurrentScene s) [] = Some m" by auto
    have "map_of m = lookup_ID (heap s) (CurrentScene s)"
      using map_by_ID_Some [OF m] by (auto simp: fun_eq_iff split: option.splits)
    with m ne True show ?thesis by (auto simp: UpdateNodeIDs_def)
  next
    case False
    with ne assms(2) have "map_of (NodeIDs s) = lookup_ID (heap s) (CurrentScene s)"
      by (simp add: cache_ok_def)
    moreover have "UpdateNodeIDs s
        = Some (s\<lparr>NodeIDs := NodeIDs s, NodeIDsMTime := CurrentSceneMTime s\<rparr>)"
      using ne False by (simp add: UpdateNodeIDs_def)
    ultimately show ?thesis by blast
  qed
qed

lemma UpdateNodeIDs_idem: "UpdateNodeIDs s = Some s' \<Longrightarrow> UpdateNodeIDs s' = Some s'"
  by (auto simp: UpdateNodeIDs_def split: if_splits option.splits)

lemma GetNodeByID_cached:
  "UpdateNodeIDs s = Some s1 \<Longrightarrow> GetNodeByID s (Some i) = Some (map_of (NodeIDs s1) i, s1)"
  by (simp add: GetNodeByID_def)

text \<open>The text of a candidate is never empty: the digits of the index are in it.\<close>

lemma dec_not_Nil: "dec n \<noteq> []"
  by (subst dec.simps) simp

lemma dec_no_space: "ch \<in> set (dec n) \<Longrightarrow> \<not> isspace ch"
proof (induction n rule: dec.induct)
  case (1 n)
  have d: "\<not> isspace (digit k)" if "k < 10" for k
  proof -
    from that have "k \<in> {0,1,2,3,4,5,6,7,8,9}" by auto
    then show ?thesis by (auto simp: digit_def isspace_def)
  qed
  show ?case
  proof (cases "n < 10")
    case True
    with "1.prems" have "ch = digit n" by (subst (asm) dec.simps) simp
    with d [OF True] show ?thesis by simp
  next
    case False
    with "1.prems" have "ch \<in> set (dec (n div 10)) \<or> ch = digit (n mod 10)"
      by (subst (asm) dec.simps) auto
    then show ?thesis using "1.IH" [OF False] d [of "n mod 10"] by auto
  qed
qed

lemma print_int_text: "print_int i \<noteq> []" "ch \<in> set (print_int i) \<Longrightarrow> \<not> isspace ch"
  using dec_not_Nil dec_no_space by (auto simp: print_int_def isspace_def split: if_splits)

lemma candidateName_not_Nil: "candidateName c i \<noteq> []"
proof -
  let ?p = "print_int (sint i)"
  obtain ch where ch: "ch \<in> set ?p" using print_int_text(1) [of "sint i"] by (cases ?p) auto
  then have ns: "\<not> isspace ch" by (rule print_int_text(2))
  have "dropWhile isspace (c @ ?p) \<noteq> []"
    using ch ns by (auto simp: dropWhile_eq_Nil_conv)
  then obtain x xs where d: "dropWhile isspace (c @ ?p) = x # xs"
    by (cases "dropWhile isspace (c @ ?p)") auto
  then have "\<not> isspace x" using hd_dropWhile [of isspace "c @ ?p"] by auto
  with d show ?thesis by (simp add: candidateName_def extract_word_def)
qed

text \<open>
  The search for an unused index. Once the ID table is rebuilt, each turn of the loop reads
  the same table. A result of the loop is an index whose candidate is no key of the table;
  and when some index from the start on (in the order of \<open>int\<close>) has such a candidate,
  the loop returns the least of them.
\<close>

lemma unique_index_step:
  assumes "UpdateNodeIDs s = Some s1"
  shows "GetUniqueIDIndexByClassFromIndex s c i =
     (if map_of (NodeIDs s1) (candidateName c i) = None then Some (i, s1)
      else GetUniqueIDIndexByClassFromIndex s1 c (i + 1))"
  by (subst GetUniqueIDIndexByClassFromIndex.simps)
     (auto simp: GetNodeByID_cached [OF assms])

lemma unique_index_result:
  assumes "GetUniqueIDIndexByClassFromIndex s c i = Some y"
  shows "UpdateNodeIDs s = Some s1 \<longrightarrow>
     snd y = s1 \<and> map_of (NodeIDs s1) (candidateName c (fst y)) = None"
  using assms
proof (induction arbitrary: s1
    rule: GetUniqueIDIndexByClassFromIndex.raw_induct [rotated 1, consumes 1])
  case (1 loop s c i y)
  show ?case
  proof
    assume u: "UpdateNodeIDs s = Some s1"
    note g = GetNodeByID_cached [OF u, of "candidateName c i"]
    show "snd y = s1 \<and> map_of (NodeIDs s1) (candidateName c (fst y)) = None"
    proof (cases "map_of (NodeIDs s1) (candidateName c i)")
      case None
      with 1(2) g show ?thesis by auto
    next
      case (Some found)
      with 1(2) g have "loop s1 c (i + 1) = Some y" by simp
      from 1(1) [OF this, of s1] UpdateNodeIDs_idem [OF u] show ?thesis by simp
    qed
  qed
qed




definition singleton_match :: "scene \<Rightarrow> addr \<Rightarrow> addr \<Rightarrow> bool" where
  "singleton_match s n sn =
     (IsA (heap s sn) (ClassName (heap s n)) \<and> SingletonTag (heap s sn) \<noteq> None
      \<and> SingletonTag (heap s sn) = SingletonTag (heap s n))"

lemma nth_by_class_filter:
  "num \<le> n \<Longrightarrow> nth_by_class h xs num n c =
     (if n - num < length (filter (\<lambda>a. IsA (h a) c) xs)
      then Some (filter (\<lambda>a. IsA (h a) c) xs ! (n - num)) else None)"
proof (induction xs arbitrary: num)
  case Nil
  then show ?case by simp
next
  case (Cons a xs)
  show ?case
  proof (cases "IsA (h a) c")
    case False
    with Cons show ?thesis by simp
  next
    case True
    show ?thesis
    proof (cases "num = n")
      case True
      with \<open>IsA (h a) c\<close> show ?thesis by simp
    next
      case False
      with Cons.prems have le: "Suc num \<le> n" by simp
      then have "n - num = Suc (n - Suc num)" by simp
      with Cons.IH [OF le] True False show ?thesis by simp
    qed
  qed
qed

lemma find_singleton_indices:
  assumes "\<forall>i\<in>set is. i < length (filter (\<lambda>a. IsA (heap s a) (ClassName (heap s n))) (CurrentScene s))"
  shows "find_singleton s n is =
     Some (find (\<lambda>sn. SingletonTag (heap s sn) \<noteq> None
                     \<and> SingletonTag (heap s sn) = SingletonTag (heap s n))
             (map (\<lambda>i. filter (\<lambda>a. IsA (heap s a) (ClassName (heap s n))) (CurrentScene s) ! i) is))"
  using assms by (induction "is") (auto simp: GetNthNodeByClass_def nth_by_class_filter)

lemma find_filter: "find Q (filter P xs) = find (\<lambda>x. P x \<and> Q x) xs"
  by (induction xs) auto

lemma find_singleton_eq:
  "find_singleton s n [0 ..< GetNumberOfNodesByClass s (ClassName (heap s n))]
     = Some (find (singleton_match s n) (CurrentScene s))"
proof -
  let ?ys = "filter (\<lambda>a. IsA (heap s a) (ClassName (heap s n))) (CurrentScene s)"
  have "find_singleton s n [0 ..< length ?ys] =
     Some (find (\<lambda>sn. SingletonTag (heap s sn) \<noteq> None
                     \<and> SingletonTag (heap s sn) = SingletonTag (heap s n))
             (map (\<lambda>i. ?ys ! i) [0 ..< length ?ys]))"
    by (rule find_singleton_indices) simp
  then show ?thesis
    by (simp add: map_nth find_filter GetNumberOfNodesByClass_def singleton_match_def [abs_def]
        conj_assoc)
qed

lemma lookup_ID_None_iff:
  "lookup_ID h as i = None \<longleftrightarrow> (\<forall>a\<in>set as. ID (h a) \<noteq> Some i)"
  by (auto simp: lookup_ID_def find_None_iff)

lemma find_SomeD: "find P xs = Some x \<Longrightarrow> x \<in> set xs \<and> P x"
  by (induction xs) (auto split: if_splits)

lemma lookup_ID_SomeD: "lookup_ID h as i = Some a \<Longrightarrow> a \<in> set as \<and> ID (h a) = Some i"
  using find_SomeD [of "\<lambda>a. ID (h a) = Some i" "rev as" a] by (simp add: lookup_ID_def)

lemma AddNode_merge:
  assumes "AddToScene (heap s n)" "find (singleton_match s n) (CurrentScene s) = Some sn"
  shows "AddNode n s = Some (Some sn,
           RemoveNodeReferences n
             (set_node sn (CopyWithSceneWithSingleModifiedEvent (heap s sn) (heap s n)) s))"
proof -
  from assms(2) have "singleton_match s n sn" by (simp add: find_SomeD)
  then have "SingletonTag (heap s n) \<noteq> None" unfolding singleton_match_def by metis
  then have "AddNodeNoNotify n s = Some (Some sn,
           RemoveNodeReferences n
             (set_node sn (CopyWithSceneWithSingleModifiedEvent (heap s sn) (heap s n)) s))"
    unfolding AddNodeNoNotify_def find_singleton_eq using assms by simp
  with assms(1) show ?thesis by (simp add: AddNode_def)
qed

definition ID_taken :: "scene \<Rightarrow> addr \<Rightarrow> bool" where
  "ID_taken s n = (ID (heap s n) = None \<or> ID (heap s n) = Some []
     \<or> (\<exists>b\<in>set (CurrentScene s). ID (heap s b) = ID (heap s n)))"

definition hint_of :: "scene \<Rightarrow> string \<Rightarrow> c_int" where
  "hint_of s className = (case map_of (UniqueIDByClass s) className of None \<Rightarrow> 1 | Some h \<Rightarrow> h)"

text \<open>An index is unused for a class when its candidate is the ID of no node of the scene.\<close>

definition unused :: "scene \<Rightarrow> string \<Rightarrow> c_int \<Rightarrow> bool" where
  "unused s className index =
     list_all (\<lambda>b. ID (heap s b) \<noteq> Some (candidateName className index)) (CurrentScene s)"

lemma assign_unique_ID_eq:
  assumes "GetUniqueIDIndexByClassFromIndex s0 (ClassName (heap s0 n))
             (hint_of s0 (ClassName (heap s0 n))) = Some (j, s2)"
    and "(case ID (heap s0 n) of None \<Rightarrow> [] | Some i \<Rightarrow> i)
           \<noteq> candidateName (ClassName (heap s0 n)) j"
  shows "assign_unique_ID n s0 = Some
     ((set_node n (ConstructAndSetID (ClassName (heap s0 n)) j (heap s2 n))
         (s2\<lparr>UniqueIDByClass := map_assign (ClassName (heap s0 n)) (j + 1) (UniqueIDByClass s2)\<rparr>))
      \<lparr>ReferencedIDChanges :=
         map_assign (case ID (heap s0 n) of None \<Rightarrow> [] | Some i \<Rightarrow> i)
           (candidateName (ClassName (heap s0 n)) j) (ReferencedIDChanges s2)\<rparr>)"
  using assms
  by (simp add: assign_unique_ID_def GetUniqueIDIndexByClass_def hint_of_def Let_def set_node_def
      ConstructAndSetID_def)

lemma assign_unique_ID_None:
  assumes "GetUniqueIDIndexByClassFromIndex s0 (ClassName (heap s0 n))
             (hint_of s0 (ClassName (heap s0 n))) = None"
  shows "assign_unique_ID n s0 = None"
  using assms
  by (simp add: assign_unique_ID_def GetUniqueIDIndexByClass_def hint_of_def Let_def)

lemma AddNodeNoNotify_no_match:
  assumes "AddToScene (heap s n)" "find (singleton_match s n) (CurrentScene s) = None"
  shows "AddNodeNoNotify n s =
     (case (if ID (heap s n) = None \<or> ID (heap s n) = Some [] then Some (True, s)
            else case GetNodeByID s (ID (heap s n)) of
                   None \<Rightarrow> None
                 | Some (r, s1) \<Rightarrow> Some (r \<noteq> None, s1)) of
        None \<Rightarrow> None
      | Some (taken, s1) \<Rightarrow>
          (case (if taken then assign_unique_ID n s1 else Some s1) of
             None \<Rightarrow> None
           | Some s2 \<Rightarrow> Some (Some n, insert_node n s2)))"
  using assms by (simp add: AddNodeNoNotify_def find_singleton_eq)


definition added_state :: "scene \<Rightarrow> addr \<Rightarrow> (string, addr) std_map \<Rightarrow> c_int \<Rightarrow> scene" where
  "added_state s n m j =
     insert_node n
       (if ID_taken s n
        then (set_node n (ConstructAndSetID (ClassName (heap s n)) j (heap s n))
                (s\<lparr>NodeIDs := m, NodeIDsMTime := CurrentSceneMTime s,
                   UniqueIDByClass :=
                     map_assign (ClassName (heap s n)) (j + 1) (UniqueIDByClass s)\<rparr>))
             \<lparr>ReferencedIDChanges :=
                map_assign (case ID (heap s n) of None \<Rightarrow> [] | Some i \<Rightarrow> i)
                  (candidateName (ClassName (heap s n)) j) (ReferencedIDChanges s)\<rparr>
        else s\<lparr>NodeIDs := m, NodeIDsMTime := CurrentSceneMTime s\<rparr>)"

text \<open>
  The path of \<open>AddNode\<close> that stores the node, in a scene whose nodes carry IDs and whose
  ID table is in step. A node whose ID is free is stored as it is. Otherwise the outcome
  is that of the index search on the rebuilt table: no result, or an unused index.
\<close>

lemma AddNode_adds:
  assumes add: "AddToScene (heap s n)"
    and nomatch: "find (singleton_match s n) (CurrentScene s) = None"
    and ids: "has_IDs s" and cache: "cache_ok s"
  shows "\<exists>m. map_of m = lookup_ID (heap s) (CurrentScene s)
      \<and> UpdateNodeIDs s = Some (s\<lparr>NodeIDs := m, NodeIDsMTime := CurrentSceneMTime s\<rparr>)
      \<and> (if ID_taken s n
         then (case GetUniqueIDIndexByClassFromIndex
                      (s\<lparr>NodeIDs := m, NodeIDsMTime := CurrentSceneMTime s\<rparr>)
                      (ClassName (heap s n)) (hint_of s (ClassName (heap s n))) of
                 None \<Rightarrow> AddNode n s = None
               | Some (j, s') \<Rightarrow> unused s (ClassName (heap s n)) j
                     \<and> AddNode n s = Some (Some n, added_state s n m j))
         else AddNode n s = Some (Some n, added_state s n m j0))"
proof -
  let ?c = "ClassName (heap s n)"
  let ?h = "hint_of s ?c"
  from UpdateNodeIDs_ok [OF ids cache] obtain m
    where u: "UpdateNodeIDs s = Some (s\<lparr>NodeIDs := m, NodeIDsMTime := CurrentSceneMTime s\<rparr>)"
      and m: "map_of m = lookup_ID (heap s) (CurrentScene s)" by blast
  let ?s1 = "s\<lparr>NodeIDs := m, NodeIDsMTime := CurrentSceneMTime s\<rparr>"
  note idem = UpdateNodeIDs_idem [OF u]
  have same: "GetUniqueIDIndexByClassFromIndex s ?c ?h
      = GetUniqueIDIndexByClassFromIndex ?s1 ?c ?h"
    using unique_index_step [OF u, of ?c ?h] unique_index_step [OF idem, of ?c ?h] by simp
  have res: "unused s ?c j \<and> s' = ?s1"
    if "GetUniqueIDIndexByClassFromIndex ?s1 ?c ?h = Some (j, s')" for j s'
    using unique_index_result [OF that, of ?s1] idem m
    by (simp add: unused_def list_all_iff lookup_ID_None_iff)
  note unfold = AddNodeNoNotify_no_match [OF add nomatch]
  have "if ID_taken s n
         then (case GetUniqueIDIndexByClassFromIndex ?s1 ?c ?h of
                 None \<Rightarrow> AddNode n s = None
               | Some (j, s') \<Rightarrow> unused s ?c j
                     \<and> AddNode n s = Some (Some n, added_state s n m j))
         else AddNode n s = Some (Some n, added_state s n m j0)"
  proof (cases "ID (heap s n) = None \<or> ID (heap s n) = Some []")
    case True
    then have t: "ID_taken s n" by (auto simp: ID_taken_def)
    from True have old: "(case ID (heap s n) of None \<Rightarrow> [] | Some i \<Rightarrow> i) = []" by auto
    show ?thesis
    proof (cases "GetUniqueIDIndexByClassFromIndex ?s1 ?c ?h")
      case None
      with same have "assign_unique_ID n s = None" by (simp add: assign_unique_ID_None)
      then have "AddNode n s = None"
        unfolding AddNode_def unfold using add True by simp
      with t None show ?thesis by simp
    next
      case (Some y)
      obtain j s' where y: "y = (j, s')" by (cases y)
      from res [of j s'] Some y have un: "unused s ?c j" and s': "s' = ?s1" by simp_all
      have a: "assign_unique_ID n s = Some
       ((set_node n (ConstructAndSetID ?c j (heap s n))
           (?s1\<lparr>UniqueIDByClass := map_assign ?c (j + 1) (UniqueIDByClass s)\<rparr>))
        \<lparr>ReferencedIDChanges := map_assign [] (candidateName ?c j) (ReferencedIDChanges s)\<rparr>)"
        using assign_unique_ID_eq [of s n j ?s1] same Some y s' old
          candidateName_not_Nil [of ?c j] by simp
      have "AddNode n s = Some (Some n, added_state s n m j)"
        unfolding AddNode_def unfold added_state_def using add True t a old by simp
      with t Some y un show ?thesis by simp
    qed
  next
    case False
    then obtain i where i: "ID (heap s n) = Some i" "i \<noteq> []" by auto
    have g: "GetNodeByID s (ID (heap s n)) = Some (lookup_ID (heap s) (CurrentScene s) i, ?s1)"
      using u m i by (simp add: GetNodeByID_def)
    have tk: "ID_taken s n \<longleftrightarrow> lookup_ID (heap s) (CurrentScene s) i \<noteq> None"
      using i by (auto simp: ID_taken_def lookup_ID_None_iff)
    show ?thesis
    proof (cases "ID_taken s n")
      case t: True
      show ?thesis
      proof (cases "GetUniqueIDIndexByClassFromIndex ?s1 ?c ?h")
        case None
        then have "assign_unique_ID n ?s1 = None"
          using assign_unique_ID_None [of ?s1 n] by (simp add: hint_of_def)
        then have "AddNode n s = None"
          unfolding AddNode_def unfold using add i g t tk by auto
        with t None show ?thesis by simp
      next
        case (Some y)
        obtain j s' where y: "y = (j, s')" by (cases y)
        from res [of j s'] Some y have un: "unused s ?c j" and s': "s' = ?s1" by simp_all
        from t tk obtain b where "lookup_ID (heap s) (CurrentScene s) i = Some b" by auto
        from lookup_ID_SomeD [OF this] un have ne: "i \<noteq> candidateName ?c j"
          by (auto simp: unused_def list_all_iff)
        have a: "assign_unique_ID n ?s1 = Some
         ((set_node n (ConstructAndSetID ?c j (heap s n))
             (?s1\<lparr>UniqueIDByClass := map_assign ?c (j + 1) (UniqueIDByClass s)\<rparr>))
          \<lparr>ReferencedIDChanges := map_assign i (candidateName ?c j) (ReferencedIDChanges s)\<rparr>)"
          using assign_unique_ID_eq [of ?s1 n j ?s1] Some y s' ne i by (simp add: hint_of_def)
        have "AddNode n s = Some (Some n, added_state s n m j)"
          unfolding AddNode_def unfold added_state_def using add i g t tk a by auto
        with t Some y un show ?thesis by simp
      qed
    next
      case nt: False
      have "AddNode n s = Some (Some n, added_state s n m j0)"
        unfolding AddNode_def unfold added_state_def using add i g nt tk by auto
      with nt show ?thesis by simp
    qed
  qed
  with m u show ?thesis by blast
qed


lemma added_state_fields:
  "CurrentScene (added_state s n m j) = CurrentScene s @ [n]"
  "CurrentSceneMTime (added_state s n m j) = Suc (CurrentSceneMTime s)"
  "NodeIDsMTime (added_state s n m j) = CurrentSceneMTime s"
  "UndoStack (added_state s n m j) = UndoStack s"
  "RedoStack (added_state s n m j) = RedoStack s"
  "NextNode (added_state s n m j) = NextNode s"
  "InUndo (added_state s n m j) = InUndo s"
  "References (added_state s n m j) = References s"
  "RootDirectory (added_state s n m j) = RootDirectory s"
  by (simp_all add: added_state_def insert_node_def AddItem_def set_node_def Let_def)

lemma added_state_heap_other: "a \<noteq> n \<Longrightarrow> heap (added_state s n m j) a = heap s a"
  by (simp add: added_state_def insert_node_def AddItem_def set_node_def Let_def)

lemma added_state_heap_node:
  "ID (heap (added_state s n m j) n)
     = (if ID_taken s n then Some (candidateName (ClassName (heap s n)) j) else ID (heap s n))"
  "SingletonTag (heap (added_state s n m j) n) = SingletonTag (heap s n)"
  "ClassName (heap (added_state s n m j) n) = ClassName (heap s n)"
  "SuperClassNames (heap (added_state s n m j) n) = SuperClassNames (heap s n)"
  "AddToScene (heap (added_state s n m j) n) = AddToScene (heap s n)"
  "Contents (heap (added_state s n m j) n) = Contents (heap s n)"
  by (simp_all add: added_state_def insert_node_def AddItem_def set_node_def Let_def
      ConstructAndSetID_def)


text \<open>Evaluating the operations on the example scenes.\<close>

lemmas scene_eval =
  AddNode_def AddNodeNoNotify_def New_def example_scene_def example_heap_def camera_heap_def
  example_node_def assign_unique_ID_def GetUniqueIDIndexByClass_def
  GetUniqueIDIndexByClassFromIndex.simps GetNodeByID_def UpdateNodeIDs_def insert_node_def
  AddItem_def set_node_def ConstructAndSetID_def candidateName_def extract_word_def
  isspace_def print_int_def dec.simps digit_def Let_def
  GetNumberOfNodesByClass_def GetNthNodeByClass_def IsA_def RemoveNodeReferences_def
  CopyWithSceneWithSingleModifiedEvent_def Copy_def RemoveNode_def RemoveItem_def
  singleton_match_def has_IDs_def cache_ok_def





datatype scene_op = AddNodeOp addr | RemoveNodeOp "addr option"

fun run :: "scene_op list \<Rightarrow> scene \<Rightarrow> scene option" where
  "run [] s = Some s"
| "run (AddNodeOp n # ops) s =
     (case AddNode n s of None \<Rightarrow> None | Some (r, s') \<Rightarrow> run ops s')"
| "run (RemoveNodeOp n # ops) s = run ops (RemoveNode n s)"

definition flagged :: "scene \<Rightarrow> bool" where
  "flagged s = (CurrentScene s = [] \<or> NodeIDsMTime s < CurrentSceneMTime s)"

definition singletons_unique :: "scene \<Rightarrow> bool" where
  "singletons_unique s =
     (\<forall>a\<in>set (CurrentScene s). \<forall>b\<in>set (CurrentScene s).
        a \<noteq> b \<and> ClassName (heap s a) = ClassName (heap s b) \<and> SingletonTag (heap s a) \<noteq> None
        \<longrightarrow> SingletonTag (heap s a) \<noteq> SingletonTag (heap s b))"

lemma flagged_cache_ok: "flagged s \<Longrightarrow> cache_ok s"
  by (auto simp: flagged_def cache_ok_def)

lemma CopyWithScene_fields:
  "ID (CopyWithSceneWithSingleModifiedEvent t other) = (if ID other \<noteq> None then ID other else ID t)"
  "SingletonTag (CopyWithSceneWithSingleModifiedEvent t other) = SingletonTag other"
  "ClassName (CopyWithSceneWithSingleModifiedEvent t other) = ClassName t"
  "SuperClassNames (CopyWithSceneWithSingleModifiedEvent t other) = SuperClassNames t"
  "AddToScene (CopyWithSceneWithSingleModifiedEvent t other) = AddToScene other"
  by (simp_all add: CopyWithSceneWithSingleModifiedEvent_def Copy_def Let_def)

definition merged_state :: "scene \<Rightarrow> addr \<Rightarrow> addr \<Rightarrow> scene" where
  "merged_state s n sn =
     RemoveNodeReferences n
       (set_node sn (CopyWithSceneWithSingleModifiedEvent (heap s sn) (heap s n)) s)"

lemma merged_state_fields:
  "CurrentScene (merged_state s n sn) = CurrentScene s"
  "CurrentSceneMTime (merged_state s n sn) = CurrentSceneMTime s"
  "NodeIDsMTime (merged_state s n sn) = NodeIDsMTime s"
  "NodeIDs (merged_state s n sn) = NodeIDs s"
  "UndoStack (merged_state s n sn) = UndoStack s"
  "RedoStack (merged_state s n sn) = RedoStack s"
  "NextNode (merged_state s n sn) = NextNode s"
  "heap (merged_state s n sn)
     = (heap s)(sn := CopyWithSceneWithSingleModifiedEvent (heap s sn) (heap s n))"
  by (simp_all add: merged_state_def RemoveNodeReferences_def set_node_def)

text \<open>The three ways \<open>AddNode\<close> can end in a scene whose nodes carry IDs.\<close>

lemma AddNode_cases:
  assumes ids: "has_IDs s" and cache: "cache_ok s" and res: "AddNode n s = Some (r, s')"
  obtains (refused) "\<not> AddToScene (heap s n)" "r = None" "s' = s"
  | (merged) sn where "AddToScene (heap s n)" "sn \<in> set (CurrentScene s)" "singleton_match s n sn"
      "find (singleton_match s n) (CurrentScene s) = Some sn"
      "r = Some sn" "s' = merged_state s n sn"
  | (added) m j where "AddToScene (heap s n)"
      "\<forall>sn\<in>set (CurrentScene s). \<not> singleton_match s n sn"
      "r = Some n" "s' = added_state s n m j"
      "ID_taken s n \<longrightarrow> unused s (ClassName (heap s n)) j"
proof (cases "AddToScene (heap s n)")
  case False
  with res have "r = None" "s' = s" by (simp_all add: AddNode_def)
  with False show ?thesis using refused by blast
next
  case True
  show ?thesis
  proof (cases "find (singleton_match s n) (CurrentScene s)")
    case (Some sn)
    from find_SomeD [OF Some] have "sn \<in> set (CurrentScene s)" "singleton_match s n sn"
      by simp_all
    moreover have "AddNode n s = Some (Some sn, merged_state s n sn)"
      using AddNode_merge [OF True Some] by (simp add: merged_state_def)
    with res have "r = Some sn" "s' = merged_state s n sn" by simp_all
    ultimately show ?thesis using merged True Some by blast
  next
    case None
    from None have nm: "\<forall>sn\<in>set (CurrentScene s). \<not> singleton_match s n sn"
      by (simp add: find_None_iff)
    from AddNode_adds [OF True None ids cache, of 0] obtain m
      where r: "if ID_taken s n
         then (case GetUniqueIDIndexByClassFromIndex
                      (s\<lparr>NodeIDs := m, NodeIDsMTime := CurrentSceneMTime s\<rparr>)
                      (ClassName (heap s n)) (hint_of s (ClassName (heap s n))) of
                 None \<Rightarrow> AddNode n s = None
               | Some (j, s') \<Rightarrow> unused s (ClassName (heap s n)) j
                     \<and> AddNode n s = Some (Some n, added_state s n m j))
         else AddNode n s = Some (Some n, added_state s n m 0)"
      by blast
    have "\<exists>j. AddNode n s = Some (Some n, added_state s n m j)
        \<and> (ID_taken s n \<longrightarrow> unused s (ClassName (heap s n)) j)"
    proof (cases "ID_taken s n")
      case False
      with r show ?thesis by auto
    next
      case t: True
      with r res show ?thesis by (auto split: option.splits)
    qed
    then obtain j where j: "AddNode n s = Some (Some n, added_state s n m j)"
      "ID_taken s n \<longrightarrow> unused s (ClassName (heap s n)) j" by blast
    with res have "r = Some n" "s' = added_state s n m j" by simp_all
    with j(2) nm True show ?thesis using added by blast
  qed
qed


lemma RemoveNode_fields:
  "heap (RemoveNode n s) = heap s"
  "set (CurrentScene (RemoveNode n s)) \<subseteq> set (CurrentScene s)"
  "NodeIDsMTime (RemoveNode n s) = NodeIDsMTime s"
  "UndoStack (RemoveNode n s) = UndoStack s"
  "RedoStack (RemoveNode n s) = RedoStack s"
  "NextNode (RemoveNode n s) = NextNode s"
  using set_remove1_subset [of _ "CurrentScene s"]
  by (auto simp: RemoveNode_def RemoveNodeReferences_def RemoveItem_def split: option.splits)

lemma RemoveNode_flagged: "flagged s \<Longrightarrow> flagged (RemoveNode n s)"
  by (auto simp: flagged_def RemoveNode_def RemoveNodeReferences_def RemoveItem_def
      split: option.splits)





lemma New_invariants: "has_IDs (New h nx)" "flagged (New h nx)" "singletons_unique (New h nx)"
  by (simp_all add: New_def has_IDs_def flagged_def singletons_unique_def)

section \<open>Singletons\<close>




section \<open>Unique IDs\<close>

text \<open>
  The nodes of a scene have unique IDs when each carries a non-empty ID that no other node
  of the scene carries. \<open>AddNode\<close> keeps this on the path that stores the node, where the
  ID is tested with \<open>GetNodeByID\<close>. On the path that merges a singleton the incoming ID
  is copied without a test: the merge collides when that ID is empty or belongs to
  another node of the scene. Every history of \<open>AddNode\<close> and \<open>RemoveNode\<close> without a
  colliding merge keeps the IDs unique, and \<open>GetNodeByID\<close> then answers the one node
  carrying the ID.
\<close>

definition unique_IDs :: "scene \<Rightarrow> bool" where
  "unique_IDs s =
     (\<forall>a\<in>set (CurrentScene s). ID (heap s a) \<noteq> None \<and> ID (heap s a) \<noteq> Some []
        \<and> (\<forall>b\<in>set (CurrentScene s). ID (heap s a) = ID (heap s b) \<longrightarrow> a = b))"

definition ID_collides :: "scene \<Rightarrow> addr \<Rightarrow> bool" where
  "ID_collides s n =
     (AddToScene (heap s n) \<and>
      (case find (singleton_match s n) (CurrentScene s) of
         None \<Rightarrow> False
       | Some sn \<Rightarrow> ID (heap s n) = Some []
           \<or> (ID (heap s n) \<noteq> None
              \<and> list_ex (\<lambda>b. b \<noteq> sn \<and> ID (heap s b) = ID (heap s n)) (CurrentScene s))))"

fun collision_free :: "scene_op list \<Rightarrow> scene \<Rightarrow> bool" where
  "collision_free [] s = True"
| "collision_free (AddNodeOp n # ops) s =
     (\<not> ID_collides s n \<and>
      (case AddNode n s of None \<Rightarrow> False | Some (r, s') \<Rightarrow> collision_free ops s'))"
| "collision_free (RemoveNodeOp n # ops) s = collision_free ops (RemoveNode n s)"

lemma unique_IDs_has_IDs: "unique_IDs s \<Longrightarrow> has_IDs s"
  by (simp add: unique_IDs_def has_IDs_def list_all_iff)

lemma unique_IDsD:
  assumes "unique_IDs s"
  shows "\<And>a. a \<in> set (CurrentScene s) \<Longrightarrow> ID (heap s a) \<noteq> None"
    "\<And>a. a \<in> set (CurrentScene s) \<Longrightarrow> ID (heap s a) \<noteq> Some []"
    "\<And>a b. a \<in> set (CurrentScene s) \<Longrightarrow> b \<in> set (CurrentScene s) \<Longrightarrow>
       ID (heap s a) = ID (heap s b) \<Longrightarrow> a = b"
  using assms unfolding unique_IDs_def by blast+

lemma RemoveNode_unique_IDs: "unique_IDs s \<Longrightarrow> unique_IDs (RemoveNode n s)"
  using RemoveNode_fields(2) [of n s]
  unfolding unique_IDs_def RemoveNode_fields(1) by blast

lemma AddNode_keeps_unique_IDs:
  assumes fl: "flagged s" and u: "unique_IDs s" and cf: "\<not> ID_collides s n"
    and res: "AddNode n s = Some (r, s')"
  shows "flagged s' \<and> unique_IDs s'"
proof (rule AddNode_cases [OF unique_IDs_has_IDs [OF u] flagged_cache_ok [OF fl] res], goal_cases)
  case refused: 1
  with assms show ?thesis by simp
next
  case merged: (2 sn)
  note s' = \<open>s' = merged_state s n sn\<close>
  let ?s' = "merged_state s n sn"
  let ?new = "if ID (heap s n) \<noteq> None then ID (heap s n) else ID (heap s sn)"
  have id: "\<And>a. ID (heap ?s' a) = (if a = sn then ?new else ID (heap s a))"
    by (simp add: merged_state_fields CopyWithScene_fields)
  from cf merged(1,4) have cl: "\<not> (ID (heap s n) = Some []
           \<or> (ID (heap s n) \<noteq> None
              \<and> list_ex (\<lambda>b. b \<noteq> sn \<and> ID (heap s b) = ID (heap s n)) (CurrentScene s)))"
    by (simp add: ID_collides_def)
  then have ne: "ID (heap s n) \<noteq> Some []" by simp
  have other: "\<forall>b\<in>set (CurrentScene s). b \<noteq> sn \<longrightarrow> ID (heap s b) \<noteq> ID (heap s n)"
    if "ID (heap s n) \<noteq> None"
    using cl that unfolding list_ex_iff by blast
  have sn: "ID (heap s sn) \<noteq> None" "ID (heap s sn) \<noteq> Some []"
    using unique_IDsD(1,2) [OF u merged(2)] by simp_all
  have new: "?new \<noteq> None" "?new \<noteq> Some []" using ne sn by simp_all
  have away: "\<forall>b\<in>set (CurrentScene s). b \<noteq> sn \<longrightarrow> ID (heap s b) \<noteq> ?new"
  proof (cases "ID (heap s n) = None")
    case True
    show ?thesis
    proof (intro ballI impI)
      fix b assume "b \<in> set (CurrentScene s)" "b \<noteq> sn"
      with unique_IDsD(3) [OF u _ merged(2), of b] True show "ID (heap s b) \<noteq> ?new" by auto
    qed
  next
    case False
    with other show ?thesis by simp
  qed
  have "unique_IDs ?s'"
    unfolding unique_IDs_def merged_state_fields(1)
  proof (intro ballI conjI impI)
    fix a assume a: "a \<in> set (CurrentScene s)"
    show "ID (heap ?s' a) \<noteq> None" "ID (heap ?s' a) \<noteq> Some []"
      using unique_IDsD(1,2) [OF u a] new by (cases "a = sn"; simp add: id)+
    fix b assume b: "b \<in> set (CurrentScene s)" and e: "ID (heap ?s' a) = ID (heap ?s' b)"
    show "a = b"
    proof (cases "a = sn")
      case True
      show ?thesis
      proof (rule ccontr)
        assume "a \<noteq> b"
        with True e have "ID (heap s b) = ?new" by (simp add: id)
        moreover from \<open>a \<noteq> b\<close> True have "b \<noteq> sn" by simp
        ultimately show False using bspec [OF away b] by simp
      qed
    next
      case False
      show ?thesis
      proof (cases "b = sn")
        case True
        with False e have "ID (heap s a) = ?new" by (simp add: id)
        with bspec [OF away a] False show ?thesis by simp
      next
        case bf: False
        with False e have "ID (heap s a) = ID (heap s b)" by (simp add: id)
        with unique_IDsD(3) [OF u a b] show ?thesis by simp
      qed
    qed
  qed
  moreover have "flagged ?s'" using fl by (simp add: flagged_def merged_state_fields)
  ultimately show ?thesis unfolding s' by blast
next
  case added: (3 m j)
  note s' = \<open>s' = added_state s n m j\<close>
  let ?s' = "added_state s n m j"
  let ?new = "ID (heap ?s' n)"
  have id: "\<And>a. a \<noteq> n \<Longrightarrow> ID (heap ?s' a) = ID (heap s a)"
    by (simp add: added_state_heap_other)
  have new: "?new \<noteq> None" "?new \<noteq> Some []"
    using candidateName_not_Nil [of "ClassName (heap s n)" j]
    by (auto simp: added_state_heap_node ID_taken_def)
  have away: "\<forall>b\<in>set (CurrentScene s). b \<noteq> n \<longrightarrow> ID (heap s b) \<noteq> ?new"
  proof (cases "ID_taken s n")
    case True
    with added(5) show ?thesis by (simp add: added_state_heap_node unused_def list_all_iff)
  next
    case False
    then show ?thesis by (auto simp: added_state_heap_node ID_taken_def)
  qed
  have mem: "\<And>a. a \<in> set (CurrentScene ?s') \<Longrightarrow> a = n \<or> (a \<noteq> n \<and> a \<in> set (CurrentScene s))"
    by (auto simp: added_state_fields)
  have "unique_IDs ?s'"
    unfolding unique_IDs_def
  proof (intro ballI conjI impI)
    fix a assume a: "a \<in> set (CurrentScene ?s')"
    show "ID (heap ?s' a) \<noteq> None" "ID (heap ?s' a) \<noteq> Some []"
    proof -
      show "ID (heap ?s' a) \<noteq> None"
      proof (cases "a = n")
        case True with new(1) show ?thesis by simp
      next
        case False
        with mem [OF a] have "a \<in> set (CurrentScene s)" by simp
        from unique_IDsD(1) [OF u this] id [OF False] show ?thesis by simp
      qed
      show "ID (heap ?s' a) \<noteq> Some []"
      proof (cases "a = n")
        case True with new(2) show ?thesis by simp
      next
        case False
        with mem [OF a] have "a \<in> set (CurrentScene s)" by simp
        from unique_IDsD(2) [OF u this] id [OF False] show ?thesis by simp
      qed
    qed
    fix b assume b: "b \<in> set (CurrentScene ?s')" and e: "ID (heap ?s' a) = ID (heap ?s' b)"
    show "a = b"
    proof (cases "a = n")
      case True
      show ?thesis
      proof (rule ccontr)
        assume n: "a \<noteq> b"
        with True mem [OF b] have b': "b \<noteq> n" "b \<in> set (CurrentScene s)" by auto
        with True e id [of b] have "ID (heap s b) = ?new" by simp
        with bspec [OF away b'(2)] b'(1) show False by simp
      qed
    next
      case False
      with mem [OF a] have a': "a \<in> set (CurrentScene s)" by auto
      show ?thesis
      proof (cases "b = n")
        case True
        with False e id [of a] have "ID (heap s a) = ?new" by simp
        with bspec [OF away a'] False show ?thesis by simp
      next
        case bf: False
        with mem [OF b] have b': "b \<in> set (CurrentScene s)" by auto
        from False bf e id [of a] id [of b] have "ID (heap s a) = ID (heap s b)" by simp
        with unique_IDsD(3) [OF u a' b'] show ?thesis by simp
      qed
    qed
  qed
  moreover have "flagged ?s'" by (simp add: flagged_def added_state_fields)
  ultimately show ?thesis unfolding s' by blast
qed

lemma run_keeps_unique_IDs:
  "flagged s \<Longrightarrow> unique_IDs s \<Longrightarrow> collision_free ops s \<Longrightarrow>
   \<exists>s'. run ops s = Some s' \<and> flagged s' \<and> unique_IDs s'"
proof (induction ops arbitrary: s)
  case Nil
  then show ?case by simp
next
  case (Cons op ops)
  show ?case
  proof (cases op)
    case (AddNodeOp n)
    with Cons.prems(3) have c: "\<not> ID_collides s n" by simp
    from Cons.prems(3) AddNodeOp obtain r s1
      where s1: "AddNode n s = Some (r, s1)" and cf: "collision_free ops s1"
      by (auto split: option.splits)
    from AddNode_keeps_unique_IDs [OF Cons.prems(1,2) c s1]
    have "flagged s1" "unique_IDs s1" by simp_all
    from Cons.IH [OF this cf] s1 AddNodeOp show ?thesis by simp
  next
    case (RemoveNodeOp n)
    with Cons.prems(3) have "collision_free ops (RemoveNode n s)" by simp
    from Cons.IH [OF RemoveNode_flagged [OF Cons.prems(1)] RemoveNode_unique_IDs [OF Cons.prems(2)] this]
      RemoveNodeOp
    show ?thesis by simp
  qed
qed

lemma GetNodeByID_unique:
  assumes fl: "flagged s" and u: "unique_IDs s"
  shows "\<exists>r s'. GetNodeByID s (Some i) = Some (r, s')
     \<and> (\<forall>a. r = Some a \<longleftrightarrow> a \<in> set (CurrentScene s) \<and> ID (heap s a) = Some i)"
proof -
  from UpdateNodeIDs_ok [OF unique_IDs_has_IDs [OF u] flagged_cache_ok [OF fl]] obtain m
    where m: "UpdateNodeIDs s = Some (s\<lparr>NodeIDs := m, NodeIDsMTime := CurrentSceneMTime s\<rparr>)"
      "map_of m = lookup_ID (heap s) (CurrentScene s)" by blast
  then have g: "GetNodeByID s (Some i)
      = Some (lookup_ID (heap s) (CurrentScene s) i, s\<lparr>NodeIDs := m, NodeIDsMTime := CurrentSceneMTime s\<rparr>)"
    by (simp add: GetNodeByID_def)
  have "\<forall>a. lookup_ID (heap s) (CurrentScene s) i = Some a
      \<longleftrightarrow> a \<in> set (CurrentScene s) \<and> ID (heap s a) = Some i"
  proof (intro allI iffI)
    fix a assume "lookup_ID (heap s) (CurrentScene s) i = Some a"
    then show "a \<in> set (CurrentScene s) \<and> ID (heap s a) = Some i" by (rule lookup_ID_SomeD)
  next
    fix a assume a: "a \<in> set (CurrentScene s) \<and> ID (heap s a) = Some i"
    then have "lookup_ID (heap s) (CurrentScene s) i \<noteq> None" by (auto simp: lookup_ID_None_iff)
    then obtain b where b: "lookup_ID (heap s) (CurrentScene s) i = Some b" by auto
    from lookup_ID_SomeD [OF b] a u have "a = b" unfolding unique_IDs_def by auto
    with b show "lookup_ID (heap s) (CurrentScene s) i = Some a" by simp
  qed
  with g show ?thesis by blast
qed

lemma unique_IDs_without_collision:
  assumes "collision_free ops (New h nx)"
  shows "\<exists>s. run ops (New h nx) = Some s \<and> unique_IDs s
     \<and> (\<forall>i. \<exists>r s'. GetNodeByID s (Some i) = Some (r, s')
           \<and> (\<forall>a. r = Some a \<longleftrightarrow> a \<in> set (CurrentScene s) \<and> ID (heap s a) = Some i))"
proof -
  have "unique_IDs (New h nx)" by (simp add: New_def unique_IDs_def)
  from run_keeps_unique_IDs [OF New_invariants(2) this assms] obtain s
    where s: "run ops (New h nx) = Some s" "flagged s" "unique_IDs s" by blast
  with GetNodeByID_unique [OF s(2,3)] show ?thesis by blast
qed

lemma collision_examples:
  "collision_free [AddNodeOp 0, AddNodeOp 1] (New camera_heap 3)"
  "\<not> collision_free [AddNodeOp 0, AddNodeOp 1, AddNodeOp 2] (New camera_heap 3)"
  by (simp_all add: scene_eval ID_collides_def)

text \<open>
  Claim C3 at a scene built from an empty one. A camera with singleton tag \<open>Default\<close> and
  a second camera are added and get the IDs \<open>Camera1\<close> and \<open>Camera2\<close>. A third camera
  arrives with the tag \<open>Default\<close> and the ID \<open>Camera2\<close> (as a scene file may have it): it
  is merged into the first, which takes over its ID. The scene then holds two nodes with
  the ID \<open>Camera2\<close>, and \<open>GetNodeByID\<close> answers the second of them.
\<close>

theorem merged_singleton_duplicates_ID:
  "(case run [AddNodeOp 0, AddNodeOp 1, AddNodeOp 2] (New camera_heap 3) of
      None \<Rightarrow> False
    | Some s \<Rightarrow> CurrentScene s = [0, 1] \<and> ID (heap s 0) = Some ''Camera2''
        \<and> ID (heap s 1) = Some ''Camera2''
        \<and> (case GetNodeByID s (Some ''Camera2'') of
              None \<Rightarrow> False
            | Some (r, s') \<Rightarrow> r = Some 1))"
  by (simp add: scene_eval)

section \<open>Undo and redo: restoring a saved collection\<close>

lemma sorted_keys_distinct: "sorted_wrt (<) (map fst (m :: ('k::linorder \<times> 'v) list)) \<Longrightarrow> distinct (map fst m)"
  by (simp add: strict_sorted_iff)

definition IDs_of :: "(addr \<Rightarrow> node) \<Rightarrow> addr list \<Rightarrow> string option list" where
  "IDs_of h as = map (\<lambda>a. ID (h a)) as"

text \<open>A collection is well named when its nodes carry non-empty, pairwise different IDs.\<close>

definition well_named :: "(addr \<Rightarrow> node) \<Rightarrow> addr list \<Rightarrow> bool" where
  "well_named h as =
     (distinct (IDs_of h as) \<and> list_all (\<lambda>a. ID (h a) \<noteq> None \<and> ID (h a) \<noteq> Some []) as)"

lemma well_namedD:
  assumes "well_named h as"
  shows "distinct as" "\<And>a. a \<in> set as \<Longrightarrow> ID (h a) \<noteq> None" "\<And>a. a \<in> set as \<Longrightarrow> ID (h a) \<noteq> Some []"
    "\<And>a b. a \<in> set as \<Longrightarrow> b \<in> set as \<Longrightarrow> ID (h a) = ID (h b) \<Longrightarrow> a = b"
proof -
  from assms have d: "distinct (map (\<lambda>a. ID (h a)) as)" by (simp add: well_named_def IDs_of_def)
  then show "distinct as" by (simp add: distinct_map)
  from d have "inj_on (\<lambda>a. ID (h a)) (set as)" by (simp add: distinct_map)
  then show "\<And>a b. a \<in> set as \<Longrightarrow> b \<in> set as \<Longrightarrow> ID (h a) = ID (h b) \<Longrightarrow> a = b"
    by (auto dest: inj_onD)
  show "\<And>a. a \<in> set as \<Longrightarrow> ID (h a) \<noteq> None" "\<And>a. a \<in> set as \<Longrightarrow> ID (h a) \<noteq> Some []"
    using assms by (simp_all add: well_named_def list_all_iff)
qed

lemma lookup_ID_well_named:
  assumes "well_named h as"
  shows "lookup_ID h as i = Some a \<longleftrightarrow> a \<in> set as \<and> ID (h a) = Some i"
proof
  assume "lookup_ID h as i = Some a"
  then show "a \<in> set as \<and> ID (h a) = Some i" by (rule lookup_ID_SomeD)
next
  assume a: "a \<in> set as \<and> ID (h a) = Some i"
  then have "lookup_ID h as i \<noteq> None" by (auto simp: lookup_ID_None_iff)
  then obtain b where b: "lookup_ID h as i = Some b" by auto
  from lookup_ID_SomeD [OF b] a well_namedD(4) [OF assms, of a b] have "a = b" by simp
  with b show "lookup_ID h as i = Some a" by simp
qed

lemma map_by_ID_well_named:
  assumes "well_named h as"
  shows "\<exists>m. map_by_ID h as [] = Some m \<and> sorted_wrt (<) (map fst m)
     \<and> (\<forall>k a. (k, a) \<in> set m \<longleftrightarrow> a \<in> set as \<and> ID (h a) = Some k)
     \<and> (\<forall>k a. map_of m k = Some a \<longleftrightarrow> a \<in> set as \<and> ID (h a) = Some k)"
proof -
  from well_namedD(2) [OF assms] have "map_by_ID h as [] \<noteq> None" by (auto simp: map_by_ID_None)
  then obtain m where m: "map_by_ID h as [] = Some m" by auto
  have s: "sorted_wrt (<) (map fst m)" using map_by_ID_sorted [OF m] by simp
  have l: "map_of m = lookup_ID h as"
    using map_by_ID_Some [OF m] by (auto simp: fun_eq_iff split: option.splits)
  have mo: "\<forall>k a. map_of m k = Some a \<longleftrightarrow> a \<in> set as \<and> ID (h a) = Some k"
    by (simp add: l lookup_ID_well_named [OF assms])
  have "\<forall>k a. (k, a) \<in> set m \<longleftrightarrow> map_of m k = Some a"
    using sorted_keys_distinct [OF s] by simp
  with m s mo show ?thesis by simp
qed


definition stack_of :: "bool \<Rightarrow> scene \<Rightarrow> addr list list" where
  "stack_of redo s = (if redo then RedoStack s else UndoStack s)"

definition keep_in :: "bool \<Rightarrow> addr \<Rightarrow> scene \<Rightarrow> scene option" where
  "keep_in redo = (if redo then CopyNodeInRedoStack else CopyNodeInUndoStack)"

definition copy_of :: "node \<Rightarrow> node" where
  "copy_of v = CopyWithSceneWithSingleModifiedEvent (CreateNodeInstance v) v"

definition same_scene :: "scene \<Rightarrow> scene \<Rightarrow> bool" where
  "same_scene s s' =
     (CurrentScene s' = CurrentScene s \<and> CurrentSceneMTime s' = CurrentSceneMTime s
      \<and> NodeIDs s' = NodeIDs s \<and> NodeIDsMTime s' = NodeIDsMTime s)"

lemma copy_of_fields:
  "ID (copy_of v) = ID v" "SingletonTag (copy_of v) = SingletonTag v"
  "AddToScene (copy_of v) = AddToScene v" "ClassName (copy_of v) = ClassName v"
  by (cases "ID v"; simp add: copy_of_def CopyWithScene_fields CreateNodeInstance_def)+

lemma keep_in_Some:
  assumes "stack_of redo s \<noteq> []"
  shows "\<exists>s'. keep_in redo c s = Some s' \<and> same_scene s s'
     \<and> heap s' = (heap s)(NextNode s := copy_of (heap s c))
     \<and> NextNode s' = Suc (NextNode s)
     \<and> stack_of redo s' = butlast (stack_of redo s)
          @ [ReplaceItems c (NextNode s) (last (stack_of redo s))]
     \<and> stack_of (\<not> redo) s' = stack_of (\<not> redo) s"
  using assms
  by (cases redo)
    (simp_all add: keep_in_def stack_of_def CopyNodeInRedoStack_def CopyNodeInUndoStack_def
      new_copy_def set_node_def Let_def same_scene_def copy_of_def)

lemma set_node_frame:
  "same_scene s (set_node a v s)" "stack_of b (set_node a v s) = stack_of b s"
  "NextNode (set_node a v s) = NextNode s" "heap (set_node a v s) = (heap s)(a := v)"
  by (simp_all add: same_scene_def set_node_def stack_of_def)

lemma same_scene_trans: "same_scene s s1 \<Longrightarrow> same_scene s1 s2 \<Longrightarrow> same_scene s s2"
  by (simp add: same_scene_def)

lemma same_scene_refl: "same_scene s s"
  by (simp add: same_scene_def)


definition is_target :: "(string, addr) std_map \<Rightarrow> (string \<times> addr) list \<Rightarrow> addr \<Rightarrow> bool" where
  "is_target cm es x = (\<exists>(k, u)\<in>set es. map_of cm k = Some x \<and> u \<noteq> x)"

definition replaced :: "(string, addr) std_map \<Rightarrow> (string \<times> addr) list \<Rightarrow> scene \<Rightarrow> scene
    \<Rightarrow> addr \<Rightarrow> addr \<Rightarrow> bool" where
  "replaced cm es s s' x' x =
     ((x' = x \<and> \<not> is_target cm es x)
      \<or> (is_target cm es x \<and> NextNode s \<le> x' \<and> x' < NextNode s'
          \<and> heap s' x' = copy_of (heap s x)))"

lemma is_target_Cons:
  "is_target cm ((k, u) # es) x
     \<longleftrightarrow> (map_of cm k = Some x \<and> u \<noteq> x) \<or> is_target cm es x"
  by (auto simp: is_target_def)

lemma copy_back_spec:
  assumes "stack_of redo s \<noteq> []"
    and "\<forall>x\<in>set (last (stack_of redo s)). x < NextNode s"
    and "\<forall>(k, u)\<in>set es. u < NextNode s \<and> (\<forall>c. map_of cm k = Some c \<longrightarrow> c < NextNode s)"
    and "distinct (map fst es)"
    and TI: "\<forall>k k' c. map_of cm k = Some c \<and> map_of cm k' = Some c \<longrightarrow> k = k'"
    and "\<forall>(k, u)\<in>set es. \<not> is_target cm es u"
  shows "\<exists>s'. copy_back (keep_in redo) cm es s acc
        = Some (s', acc @ map snd (filter (\<lambda>(k, u). map_of cm k = None) es))
     \<and> same_scene s s' \<and> NextNode s \<le> NextNode s'
     \<and> stack_of redo s' \<noteq> [] \<and> butlast (stack_of redo s') = butlast (stack_of redo s)
     \<and> stack_of (\<not> redo) s' = stack_of (\<not> redo) s
     \<and> (\<forall>(k, u)\<in>set es. \<forall>c. map_of cm k = Some c \<and> u \<noteq> c \<longrightarrow>
           heap s' c = CopyWithSceneWithSingleModifiedEvent (heap s c) (heap s u))
     \<and> (\<forall>a. a < NextNode s \<and> \<not> is_target cm es a \<longrightarrow> heap s' a = heap s a)
     \<and> list_all2 (replaced cm es s s') (last (stack_of redo s')) (last (stack_of redo s))"
  using assms(1,2,3,4,6)
proof (induction es arbitrary: s acc)
  case Nil
  have "list_all2 (replaced cm [] s s) (last (stack_of redo s)) (last (stack_of redo s))"
    by (simp add: list_all2_same replaced_def is_target_def)
  with Nil show ?case by (simp add: same_scene_refl is_target_def)
next
  case (Cons e es)
  obtain k u where e: "e = (k, u)" by (cases e)
  let ?M = "NextNode s"
  have D: "distinct (map fst es)" and knew: "k \<notin> fst ` set es"
    using Cons.prems(4) e by auto
  have E: "\<forall>(k, u)\<in>set es. u < ?M \<and> (\<forall>c. map_of cm k = Some c \<longrightarrow> c < ?M)"
    and Eu: "u < ?M" and Ec: "\<And>c. map_of cm k = Some c \<Longrightarrow> c < ?M"
    using Cons.prems(3) e by auto
  have ST: "\<forall>(k', u')\<in>set es. \<not> is_target cm es u'"
    and STh: "\<forall>(k', u')\<in>set es. \<not> (map_of cm k = Some u' \<and> u \<noteq> u')"
    using Cons.prems(5) e by (auto simp: is_target_Cons)
  show ?case
  proof (cases "\<exists>c. map_of cm k = Some c \<and> u \<noteq> c")
    case False
    then have same: "\<And>x. is_target cm (e # es) x = is_target cm es x"
      by (auto simp: e is_target_Cons)
    then have rep: "\<And>s'. replaced cm (e # es) s s' = replaced cm es s s'"
      by (simp add: replaced_def fun_eq_iff)
    show ?thesis
    proof (cases "map_of cm k")
      case None
      from Cons.IH [OF Cons.prems(1,2) E D ST, of "acc @ [u]"] None
      show ?thesis unfolding same rep by (auto simp: e)
    next
      case (Some c)
      with False have uc: "u = c" by simp
      from Cons.IH [OF Cons.prems(1,2) E D ST, of acc] Some uc
      show ?thesis unfolding same rep by (auto simp: e)
    qed
  next
    case True
    then obtain c where c: "map_of cm k = Some c" "u \<noteq> c" by blast
    have cM: "c < ?M" using Ec c by simp
    from keep_in_Some [OF Cons.prems(1), of c] obtain sa
      where sa: "keep_in redo c s = Some sa" "same_scene s sa"
        "heap sa = (heap s)(?M := copy_of (heap s c))" "NextNode sa = Suc ?M"
        "stack_of redo sa = butlast (stack_of redo s) @ [ReplaceItems c ?M (last (stack_of redo s))]"
        "stack_of (\<not> redo) sa = stack_of (\<not> redo) s"
      by blast
    define sb where "sb = set_node c (CopyWithSceneWithSingleModifiedEvent (heap sa c) (heap sa u)) sa"
    have hb: "heap sb = (heap s)(?M := copy_of (heap s c),
        c := CopyWithSceneWithSingleModifiedEvent (heap s c) (heap s u))"
      using cM Eu by (simp add: sb_def set_node_frame sa(3))
    have nb: "NextNode sb = Suc ?M" by (simp add: sb_def set_node_frame sa(4))
    have stb: "stack_of redo sb = butlast (stack_of redo s) @ [ReplaceItems c ?M (last (stack_of redo s))]"
      "stack_of (\<not> redo) sb = stack_of (\<not> redo) s"
      by (simp_all add: sb_def set_node_frame sa(5,6))
    have ssb: "same_scene s sb"
      using same_scene_trans [OF sa(2) set_node_frame(1)] by (simp add: sb_def)
    have step: "copy_back (keep_in redo) cm (e # es) s acc = copy_back (keep_in redo) cm es sb acc"
      using c sa(1) by (simp add: e sb_def)
    have p1: "stack_of redo sb \<noteq> []" by (simp add: stb)
    have p2: "\<forall>x\<in>set (last (stack_of redo sb)). x < NextNode sb"
      using Cons.prems(2) by (auto simp: stb nb ReplaceItems_def less_Suc_eq)
    have p3: "\<forall>(k, u)\<in>set es. u < NextNode sb \<and> (\<forall>c. map_of cm k = Some c \<longrightarrow> c < NextNode sb)"
      using E by (auto simp: nb less_Suc_eq)
    from Cons.IH [OF p1 p2 p3 D ST, of acc] obtain s'
      where r: "copy_back (keep_in redo) cm es sb acc
          = Some (s', acc @ map snd (filter (\<lambda>(k, u). map_of cm k = None) es))"
        and fr: "same_scene sb s'" "NextNode sb \<le> NextNode s'" "stack_of redo s' \<noteq> []"
          "butlast (stack_of redo s') = butlast (stack_of redo sb)"
          "stack_of (\<not> redo) s' = stack_of (\<not> redo) sb"
        and tg: "\<forall>(k, u)\<in>set es. \<forall>c. map_of cm k = Some c \<and> u \<noteq> c \<longrightarrow>
           heap s' c = CopyWithSceneWithSingleModifiedEvent (heap sb c) (heap sb u)"
        and un: "\<forall>a. a < NextNode sb \<and> \<not> is_target cm es a \<longrightarrow> heap s' a = heap sb a"
        and la: "list_all2 (replaced cm es sb s') (last (stack_of redo s')) (last (stack_of redo sb))"
      by blast
    have c_not_later: "\<not> is_target cm es c"
    proof
      assume "is_target cm es c"
      then obtain k' u' where "(k', u') \<in> set es" "map_of cm k' = Some c"
        by (auto simp: is_target_def)
      with TI c(1) have "k' = k" by blast
      with \<open>(k', u') \<in> set es\<close> knew show False by force
    qed
    have M_not_target: "\<not> is_target cm es ?M"
      using E by (auto simp: is_target_def)
    have it: "\<And>x. is_target cm (e # es) x \<longleftrightarrow> x = c \<or> is_target cm es x"
      using c by (auto simp: e is_target_Cons)
    have g1: "copy_back (keep_in redo) cm (e # es) s acc
        = Some (s', acc @ map snd (filter (\<lambda>(k, u). map_of cm k = None) (e # es)))"
      using step r c(1) by (simp add: e)
    have g2: "same_scene s s'" using same_scene_trans [OF ssb fr(1)] .
    have g3: "NextNode s \<le> NextNode s'" using fr(2) nb by simp
    have g4: "butlast (stack_of redo s') = butlast (stack_of redo s)" using fr(4) stb(1) by simp
    have g5: "stack_of (\<not> redo) s' = stack_of (\<not> redo) s" using fr(5) stb(2) by simp
    have g6: "\<forall>(k', u')\<in>set (e # es). \<forall>c'. map_of cm k' = Some c' \<and> u' \<noteq> c' \<longrightarrow>
           heap s' c' = CopyWithSceneWithSingleModifiedEvent (heap s c') (heap s u')"
    proof (intro ballI, clarify)
      fix k' u' c'
      assume m: "(k', u') \<in> set (e # es)" and c': "map_of cm k' = Some c'" "u' \<noteq> c'"
      show "heap s' c' = CopyWithSceneWithSingleModifiedEvent (heap s c') (heap s u')"
      proof (cases "(k', u') = (k, u)")
        case True
        with c' c have "c' = c" "u' = u" by simp_all
        moreover have "heap s' c = heap sb c" using un c_not_later cM by (simp add: nb)
        ultimately show ?thesis by (simp add: hb)
      next
        case False
        with m e have m': "(k', u') \<in> set es" by auto
        with tg c' have h: "heap s' c' = CopyWithSceneWithSingleModifiedEvent (heap sb c') (heap sb u')"
          by blast
        from m' knew have "k' \<noteq> k" by force
        with TI c(1) c'(1) have "c' \<noteq> c" by blast
        moreover from m' E c'(1) have "c' < ?M" "u' < ?M" by auto
        moreover from m' STh c have "u' \<noteq> c" by auto
        ultimately show ?thesis using h by (simp add: hb)
      qed
    qed
    have g7: "\<forall>a. a < NextNode s \<and> \<not> is_target cm (e # es) a \<longrightarrow> heap s' a = heap s a"
    proof (intro allI impI)
      fix a assume a: "a < NextNode s \<and> \<not> is_target cm (e # es) a"
      then have "a \<noteq> c" "\<not> is_target cm es a" by (simp_all add: it)
      with a un have "heap s' a = heap sb a" by (simp add: nb)
      with a \<open>a \<noteq> c\<close> show "heap s' a = heap s a" by (simp add: hb)
    qed
    have g8: "list_all2 (replaced cm (e # es) s s') (last (stack_of redo s')) (last (stack_of redo s))"
    proof -
      have "list_all2 (\<lambda>x' x. replaced cm es sb s' x' (if x = c then ?M else x))
          (last (stack_of redo s')) (last (stack_of redo s))"
        using la by (simp add: stb ReplaceItems_def list_all2_map2)
      then show ?thesis
      proof (rule list.rel_mono_strong)
        fix x' x
        assume "x' \<in> set (last (stack_of redo s'))"
          and x: "x \<in> set (last (stack_of redo s))"
          and rp: "replaced cm es sb s' x' (if x = c then ?M else x)"
        from x Cons.prems(2) have xM: "x < ?M" by simp
        show "replaced cm (e # es) s s' x' x"
        proof (cases "x = c")
          case True
          with rp M_not_target have "x' = ?M" by (simp add: replaced_def)
          moreover have "heap s' ?M = heap sb ?M" using un M_not_target by (simp add: nb)
          ultimately show ?thesis
            using True cM fr(2) by (simp add: replaced_def it hb nb)
        next
          case False
          with rp xM show ?thesis
            by (auto simp: replaced_def it hb nb)
        qed
      qed
    qed
    from g1 g2 g3 fr(3) g4 g5 g6 g7 g8 show ?thesis by blast
  qed
qed


definition timed :: "scene \<Rightarrow> bool" where
  "timed s = (NodeIDsMTime s \<le> CurrentSceneMTime s)"

lemma lookup_ID_cong:
  "(\<And>a. a \<in> set as \<Longrightarrow> ID (h' a) = ID (h a)) \<Longrightarrow> lookup_ID h' as = lookup_ID h as"
  unfolding lookup_ID_def fun_eq_iff by (auto intro!: find_cong)

lemma cache_ok_cong:
  assumes "same_scene s s'" "\<And>a. a \<in> set (CurrentScene s) \<Longrightarrow> ID (heap s' a) = ID (heap s a)"
    and "cache_ok s"
  shows "cache_ok s'"
proof -
  have "lookup_ID (heap s') (CurrentScene s) = lookup_ID (heap s) (CurrentScene s)"
    using assms(2) by (rule lookup_ID_cong)
  with assms(1,3) show ?thesis by (auto simp: cache_ok_def same_scene_def)
qed

lemma added_state_untaken:
  assumes "\<not> ID_taken s n"
  shows "ID (heap (added_state s n m j) a) = ID (heap s a)"
    "SingletonTag (heap (added_state s n m j) a) = SingletonTag (heap s a)"
    "AddToScene (heap (added_state s n m j) a) = AddToScene (heap s a)"
    "ClassName (heap (added_state s n m j) a) = ClassName (heap s a)"
  using assms
  by (cases "a = n"; simp add: added_state_heap_other added_state_heap_node)+

lemma add_nodes_spec:
  assumes "has_IDs s" "cache_ok s"
    and "\<forall>u\<in>set us. AddToScene (heap s u) \<and> SingletonTag (heap s u) = None
           \<and> ID (heap s u) \<noteq> None \<and> ID (heap s u) \<noteq> Some []"
    and "distinct (IDs_of (heap s) us)"
    and "set (IDs_of (heap s) us) \<inter> set (IDs_of (heap s) (CurrentScene s)) = {}"
  shows "\<exists>s'. add_nodes us s = Some s' \<and> CurrentScene s' = CurrentScene s @ us
     \<and> (\<forall>a. a \<notin> set us \<longrightarrow> heap s' a = heap s a)
     \<and> (\<forall>a. ID (heap s' a) = ID (heap s a) \<and> SingletonTag (heap s' a) = SingletonTag (heap s a)
            \<and> AddToScene (heap s' a) = AddToScene (heap s a))
     \<and> UndoStack s' = UndoStack s \<and> RedoStack s' = RedoStack s \<and> NextNode s' = NextNode s
     \<and> InUndo s' = InUndo s \<and> has_IDs s' \<and> cache_ok s' \<and> (timed s \<longrightarrow> timed s')"
  using assms
proof (induction us arbitrary: s)
  case Nil
  then show ?case by simp
next
  case (Cons u us)
  have nomatch: "find (singleton_match s u) (CurrentScene s) = None"
    using Cons.prems(3) by (auto simp: find_None_iff singleton_match_def)
  have "ID (heap s u) \<notin> set (IDs_of (heap s) (CurrentScene s))"
    using Cons.prems(5) by (auto simp: IDs_of_def)
  then have "\<forall>b\<in>set (CurrentScene s). ID (heap s b) \<noteq> ID (heap s u)"
    by (auto simp: IDs_of_def image_iff)
  then have nt: "\<not> ID_taken s u"
    using Cons.prems(3) by (simp add: ID_taken_def)
  from AddNode_adds [OF _ nomatch Cons.prems(1,2), of 0] Cons.prems(3) nt obtain m
    where r: "AddNode u s = Some (Some u, added_state s u m 0)" by auto
  let ?s1 = "added_state s u m 0"
  note keep = added_state_untaken [OF nt, of m 0]
  have ids1: "IDs_of (heap ?s1) = IDs_of (heap s)" by (simp add: IDs_of_def keep fun_eq_iff)
  have q1: "has_IDs ?s1"
    using Cons.prems(1,3) by (simp add: has_IDs_def list_all_iff added_state_fields keep)
  have q2: "cache_ok ?s1" by (simp add: cache_ok_def added_state_fields)
  have q3: "\<forall>u\<in>set us. AddToScene (heap ?s1 u) \<and> SingletonTag (heap ?s1 u) = None
           \<and> ID (heap ?s1 u) \<noteq> None \<and> ID (heap ?s1 u) \<noteq> Some []"
    using Cons.prems(3) by (simp add: keep)
  have q4: "distinct (IDs_of (heap ?s1) us)" using Cons.prems(4) by (simp add: ids1 IDs_of_def)
  have q5: "set (IDs_of (heap ?s1) us) \<inter> set (IDs_of (heap ?s1) (CurrentScene ?s1)) = {}"
    using Cons.prems(4,5) by (auto simp: ids1 IDs_of_def added_state_fields)
  from Cons.IH [OF q1 q2 q3 q4 q5] obtain s'
    where s': "add_nodes us ?s1 = Some s'" "CurrentScene s' = CurrentScene ?s1 @ us"
      "\<forall>a. a \<notin> set us \<longrightarrow> heap s' a = heap ?s1 a"
      "\<forall>a. ID (heap s' a) = ID (heap ?s1 a) \<and> SingletonTag (heap s' a) = SingletonTag (heap ?s1 a)
            \<and> AddToScene (heap s' a) = AddToScene (heap ?s1 a)"
      "UndoStack s' = UndoStack ?s1 \<and> RedoStack s' = RedoStack ?s1 \<and> NextNode s' = NextNode ?s1
        \<and> InUndo s' = InUndo ?s1 \<and> has_IDs s' \<and> cache_ok s' \<and> (timed ?s1 \<longrightarrow> timed s')"
    by blast
  have t1: "timed ?s1" by (simp add: timed_def added_state_fields)
  have "add_nodes (u # us) s = Some s'" using r s'(1) by simp
  moreover have "CurrentScene s' = CurrentScene s @ u # us"
    using s'(2) by (simp add: added_state_fields)
  moreover have "\<forall>a. a \<notin> set (u # us) \<longrightarrow> heap s' a = heap s a"
    using s'(3) by (simp add: added_state_heap_other)
  moreover have "\<forall>a. ID (heap s' a) = ID (heap s a) \<and> SingletonTag (heap s' a) = SingletonTag (heap s a)
            \<and> AddToScene (heap s' a) = AddToScene (heap s a)"
    using s'(4) by (simp add: keep)
  ultimately show ?case using s'(5) t1 by (simp add: added_state_fields)
qed

lemma RemoveNode_cache_ok: "cache_ok s \<Longrightarrow> timed s \<Longrightarrow> cache_ok (RemoveNode n s) \<and> timed (RemoveNode n s)"
  by (auto simp: cache_ok_def timed_def RemoveNode_def RemoveNodeReferences_def RemoveItem_def
      split: option.splits)

lemma filter_absent: "r \<notin> set xs \<Longrightarrow> filter (\<lambda>x. x \<noteq> r) xs = xs"
  by (induction xs) auto

lemma distinct_remove1_filter: "distinct xs \<Longrightarrow> remove1 r xs = filter (\<lambda>x. x \<noteq> r) xs"
  by (induction xs) (auto simp: filter_absent)

lemma remove_nodes_spec:
  assumes "distinct (CurrentScene s)"
  shows "CurrentScene (remove_nodes rs s) = filter (\<lambda>x. x \<notin> set rs) (CurrentScene s)
     \<and> heap (remove_nodes rs s) = heap s
     \<and> UndoStack (remove_nodes rs s) = UndoStack s \<and> RedoStack (remove_nodes rs s) = RedoStack s
     \<and> NextNode (remove_nodes rs s) = NextNode s \<and> InUndo (remove_nodes rs s) = InUndo s
     \<and> (cache_ok s \<and> timed s \<longrightarrow> cache_ok (remove_nodes rs s) \<and> timed (remove_nodes rs s))"
  using assms
proof (induction rs arbitrary: s)
  case Nil
  then show ?case by simp
next
  case (Cons r rs)
  let ?s1 = "RemoveNode (Some r) s"
  have "remove1 r (CurrentScene s) = filter (\<lambda>x. x \<noteq> r) (CurrentScene s)"
    using Cons.prems by (rule distinct_remove1_filter)
  moreover have "r \<notin> set (CurrentScene s) \<Longrightarrow> filter (\<lambda>x. x \<noteq> r) (CurrentScene s) = CurrentScene s"
    by (rule filter_absent)
  ultimately have c1: "CurrentScene ?s1 = filter (\<lambda>x. x \<noteq> r) (CurrentScene s)"
    by (simp add: RemoveNode_def RemoveNodeReferences_def RemoveItem_def)
  then have d1: "distinct (CurrentScene ?s1)" using Cons.prems by simp
  have f1: "heap ?s1 = heap s" "UndoStack ?s1 = UndoStack s" "RedoStack ?s1 = RedoStack s"
    "NextNode ?s1 = NextNode s" "InUndo ?s1 = InUndo s"
    by (simp_all add: RemoveNode_def RemoveNodeReferences_def RemoveItem_def)
  from Cons.IH [OF d1] RemoveNode_cache_ok [of s "Some r"] show ?case
    by (auto simp: c1 f1 intro: filter_cong)
qed


definition restore :: "bool \<Rightarrow> addr list \<Rightarrow> scene \<Rightarrow> scene option" where
  "restore redo saved s1 =
     (case map_by_ID (heap s1) (CurrentScene s1) [] of
        None \<Rightarrow> None
      | Some currentMap \<Rightarrow>
     (case map_by_ID (heap s1) saved [] of
        None \<Rightarrow> None
      | Some undoMap \<Rightarrow>
     (case copy_back (keep_in redo) currentMap undoMap s1 [] of
        None \<Rightarrow> None
      | Some (s2, addNodes) \<Rightarrow>
     (case add_nodes addNodes s2 of
        None \<Rightarrow> None
      | Some s3 \<Rightarrow> Some (remove_nodes (nodes_to_remove currentMap undoMap) s3)))))"

lemma Undo_restore:
  "Undo s =
     (if UndoStack s = [] then Some s
      else case restore True (last (UndoStack s)) (PushIntoRedoStack (s\<lparr>InUndo := True\<rparr>)) of
             None \<Rightarrow> None
           | Some s4 \<Rightarrow>
               Some ((if UndoStack s4 \<noteq> [] then s4\<lparr>UndoStack := butlast (UndoStack s4)\<rparr> else s4)
                  \<lparr>InUndo := False\<rparr>))"
  by (simp add: Undo_def restore_def keep_in_def Let_def PushIntoRedoStack_def
      split: option.splits prod.splits)

lemma Redo_restore:
  "Redo s =
     (if RedoStack s = [] then Some s
      else case restore False (last (RedoStack s)) (PushIntoUndoStack s) of
             None \<Rightarrow> None
           | Some s4 \<Rightarrow>
               if RedoStack s4 = [] then None
               else Some (s4\<lparr>RedoStack := butlast (RedoStack s4)\<rparr>))"
  by (simp add: Redo_def restore_def keep_in_def Let_def PushIntoUndoStack_def
      split: option.splits prod.splits)


definition overwritten :: "(addr \<Rightarrow> node) \<Rightarrow> addr list \<Rightarrow> addr list \<Rightarrow> addr \<Rightarrow> bool" where
  "overwritten h cur saved c =
     (c \<in> set cur \<and> (\<exists>u\<in>set saved. ID (h u) = ID (h c) \<and> u \<noteq> c))"

lemma restore_spec:
  fixes s1 :: scene and saved :: "addr list" and redo :: bool
  defines "h1 \<equiv> heap s1" and "cur \<equiv> CurrentScene s1" and "tp \<equiv> last (stack_of redo s1)"
  assumes wc: "well_named h1 cur" and ws: "well_named h1 saved"
    and co: "cache_ok s1" and ti: "timed s1"
    and fresh: "\<forall>a\<in>set cur \<union> set saved \<union> set tp. a < NextNode s1"
    and ne: "stack_of redo s1 \<noteq> []"
    and addable: "\<forall>u\<in>set saved. ID (h1 u) \<notin> set (IDs_of h1 cur) \<longrightarrow>
                    AddToScene (h1 u) \<and> SingletonTag (h1 u) = None"
  shows "\<exists>s4 added top4. restore redo saved s1 = Some s4
     \<and> CurrentScene s4 = filter (\<lambda>c. ID (h1 c) \<in> set (IDs_of h1 saved)) cur @ added
     \<and> distinct added \<and> set added = {u \<in> set saved. ID (h1 u) \<notin> set (IDs_of h1 cur)}
     \<and> (\<forall>a. a < NextNode s1 \<longrightarrow> ID (heap s4 a) = ID (h1 a))
     \<and> (\<forall>c\<in>set cur. \<forall>u\<in>set saved. ID (h1 u) = ID (h1 c) \<and> u \<noteq> c \<longrightarrow>
           heap s4 c = CopyWithSceneWithSingleModifiedEvent (h1 c) (h1 u))
     \<and> (\<forall>a. a < NextNode s1 \<and> \<not> overwritten h1 cur saved a \<longrightarrow>
           AddToScene (heap s4 a) = AddToScene (h1 a)
           \<and> SingletonTag (heap s4 a) = SingletonTag (h1 a))
     \<and> stack_of (\<not> redo) s4 = stack_of (\<not> redo) s1
     \<and> stack_of redo s4 = butlast (stack_of redo s1) @ [top4]
     \<and> list_all2 (\<lambda>x' x. ID (heap s4 x') = ID (h1 x) \<and> x' < NextNode s4
           \<and> (x' = x \<or> overwritten h1 cur saved x)) top4 tp
     \<and> NextNode s1 \<le> NextNode s4 \<and> cache_ok s4 \<and> timed s4"
proof -
  let ?N = "NextNode s1"
  from map_by_ID_well_named [OF wc] obtain cm
    where cm: "map_by_ID h1 cur [] = Some cm" "sorted_wrt (<) (map fst cm)"
      and cm_set: "\<And>k a. (k, a) \<in> set cm \<longleftrightarrow> a \<in> set cur \<and> ID (h1 a) = Some k"
      and cm_of: "\<And>k a. map_of cm k = Some a \<longleftrightarrow> a \<in> set cur \<and> ID (h1 a) = Some k"
    by blast
  from map_by_ID_well_named [OF ws] obtain um
    where um: "map_by_ID h1 saved [] = Some um" "sorted_wrt (<) (map fst um)"
      and um_set: "\<And>k a. (k, a) \<in> set um \<longleftrightarrow> a \<in> set saved \<and> ID (h1 a) = Some k"
      and um_of: "\<And>k a. map_of um k = Some a \<longleftrightarrow> a \<in> set saved \<and> ID (h1 a) = Some k"
    by blast
  note wcD = well_namedD [OF wc] and wsD = well_namedD [OF ws]
  have um_keys: "distinct (map fst um)" using um(2) by (rule sorted_keys_distinct)
  have cm_keys: "distinct (map fst cm)" using cm(2) by (rule sorted_keys_distinct)
  have cm_None: "\<And>k. map_of cm k = None \<longleftrightarrow> Some k \<notin> set (IDs_of h1 cur)"
  proof -
    fix k
    have "map_of cm k = None \<longleftrightarrow> (\<forall>a. map_of cm k \<noteq> Some a)" by auto
    also have "\<dots> \<longleftrightarrow> Some k \<notin> set (IDs_of h1 cur)"
      by (auto simp: cm_of IDs_of_def image_iff)
    finally show "map_of cm k = None \<longleftrightarrow> Some k \<notin> set (IDs_of h1 cur)" .
  qed
  have um_None: "\<And>k. map_of um k = None \<longleftrightarrow> Some k \<notin> set (IDs_of h1 saved)"
  proof -
    fix k
    have "map_of um k = None \<longleftrightarrow> (\<forall>a. map_of um k \<noteq> Some a)" by auto
    also have "\<dots> \<longleftrightarrow> Some k \<notin> set (IDs_of h1 saved)"
      by (auto simp: um_of IDs_of_def image_iff)
    finally show "map_of um k = None \<longleftrightarrow> Some k \<notin> set (IDs_of h1 saved)" .
  qed
  have target: "\<And>x. is_target cm um x \<longleftrightarrow> overwritten h1 cur saved x"
  proof
    fix x assume "is_target cm um x"
    then obtain k u where "(k, u) \<in> set um" "map_of cm k = Some x" "u \<noteq> x"
      unfolding is_target_def by blast
    then have "x \<in> set cur" "u \<in> set saved" "ID (h1 u) = ID (h1 x)" "u \<noteq> x"
      by (simp_all add: um_set cm_of)
    then show "overwritten h1 cur saved x" unfolding overwritten_def by blast
  next
    fix x assume "overwritten h1 cur saved x"
    then obtain u where u: "x \<in> set cur" "u \<in> set saved" "ID (h1 u) = ID (h1 x)" "u \<noteq> x"
      unfolding overwritten_def by blast
    from wcD(2) [OF u(1)] obtain k where k: "ID (h1 x) = Some k" by auto
    with u have "(k, u) \<in> set um" "map_of cm k = Some x" by (simp_all add: um_set cm_of)
    with u(4) show "is_target cm um x" unfolding is_target_def by blast
  qed
  \<comment> \<open>the copy loop\<close>
  have b2: "\<forall>x\<in>set (last (stack_of redo s1)). x < ?N" using fresh by (simp add: tp_def)
  have b3: "\<forall>(k, u)\<in>set um. u < ?N \<and> (\<forall>c. map_of cm k = Some c \<longrightarrow> c < ?N)"
    using fresh by (auto simp: um_set cm_of)
  have b5: "\<forall>k k' c. map_of cm k = Some c \<and> map_of cm k' = Some c \<longrightarrow> k = k'"
    by (auto simp: cm_of)
  have b6: "\<forall>(k, u)\<in>set um. \<not> is_target cm um u"
  proof (intro ballI, clarify)
    fix k u assume ku: "(k, u) \<in> set um" and t: "is_target cm um u"
    from t obtain u' where "u' \<in> set saved" "ID (h1 u') = ID (h1 u)" "u' \<noteq> u"
      by (auto simp: target overwritten_def)
    moreover from ku have "u \<in> set saved" by (simp add: um_set)
    ultimately show False using wsD(4) by blast
  qed
  from copy_back_spec [OF ne b2 b3 um_keys b5 b6, of "[]"] obtain s2
    where s2: "copy_back (keep_in redo) cm um s1 []
          = Some (s2, map snd (filter (\<lambda>(k, u). map_of cm k = None) um))"
      and fr: "same_scene s1 s2" "?N \<le> NextNode s2" "stack_of redo s2 \<noteq> []"
        "butlast (stack_of redo s2) = butlast (stack_of redo s1)"
        "stack_of (\<not> redo) s2 = stack_of (\<not> redo) s1"
      and tg: "\<forall>(k, u)\<in>set um. \<forall>c. map_of cm k = Some c \<and> u \<noteq> c \<longrightarrow>
           heap s2 c = CopyWithSceneWithSingleModifiedEvent (heap s1 c) (heap s1 u)"
      and un: "\<forall>a. a < ?N \<and> \<not> is_target cm um a \<longrightarrow> heap s2 a = heap s1 a"
      and la: "list_all2 (replaced cm um s1 s2) (last (stack_of redo s2)) (last (stack_of redo s1))"
    by auto
  define added where "added = map snd (filter (\<lambda>(k, u). map_of cm k = None) um)"
  have tg': "\<And>c u. c \<in> set cur \<Longrightarrow> u \<in> set saved \<Longrightarrow> ID (h1 u) = ID (h1 c) \<Longrightarrow> u \<noteq> c
      \<Longrightarrow> heap s2 c = CopyWithSceneWithSingleModifiedEvent (h1 c) (h1 u)"
  proof -
    fix c u assume a: "c \<in> set cur" "u \<in> set saved" "ID (h1 u) = ID (h1 c)" "u \<noteq> c"
    from wcD(2) [OF a(1)] obtain k where k: "ID (h1 c) = Some k" by auto
    with a have "(k, u) \<in> set um" "map_of cm k = Some c" by (simp_all add: um_set cm_of)
    with tg a(4) show "heap s2 c = CopyWithSceneWithSingleModifiedEvent (h1 c) (h1 u)"
      unfolding h1_def by blast
  qed
  have un': "\<And>a. a < ?N \<Longrightarrow> \<not> overwritten h1 cur saved a \<Longrightarrow> heap s2 a = h1 a"
    using un by (simp add: target h1_def)
  have id2: "\<And>a. a < ?N \<Longrightarrow> ID (heap s2 a) = ID (h1 a)"
  proof -
    fix a assume a: "a < ?N"
    show "ID (heap s2 a) = ID (h1 a)"
    proof (cases "overwritten h1 cur saved a")
      case True
      then obtain u where u: "a \<in> set cur" "u \<in> set saved" "ID (h1 u) = ID (h1 a)" "u \<noteq> a"
        by (auto simp: overwritten_def)
      from tg' [OF u] wsD(2) [OF u(2)] u(3) show ?thesis by (simp add: CopyWithScene_fields)
    next
      case False
      with un' a show ?thesis by simp
    qed
  qed
  have cur2: "CurrentScene s2 = cur" using fr(1) by (simp add: same_scene_def cur_def)
  have cur_lt: "\<And>a. a \<in> set cur \<Longrightarrow> a < ?N" and saved_lt: "\<And>a. a \<in> set saved \<Longrightarrow> a < ?N"
    using fresh by auto
  \<comment> \<open>the nodes to add\<close>
  have added_set: "set added = {u \<in> set saved. ID (h1 u) \<notin> set (IDs_of h1 cur)}"
  proof (intro set_eqI iffI)
    fix u assume "u \<in> set added"
    then obtain k where "(k, u) \<in> set um" "map_of cm k = None"
      unfolding added_def by auto
    then show "u \<in> {u \<in> set saved. ID (h1 u) \<notin> set (IDs_of h1 cur)}"
      by (simp add: um_set cm_None)
  next
    fix u assume "u \<in> {u \<in> set saved. ID (h1 u) \<notin> set (IDs_of h1 cur)}"
    then have u: "u \<in> set saved" "ID (h1 u) \<notin> set (IDs_of h1 cur)" by simp_all
    from wsD(2) [OF u(1)] obtain k where k: "ID (h1 u) = Some k" by auto
    with u have "(k, u) \<in> set um" "map_of cm k = None" by (simp_all add: um_set cm_None)
    then have "(k, u) \<in> set (filter (\<lambda>(k, u). map_of cm k = None) um)" by simp
    then have "snd (k, u) \<in> snd ` set (filter (\<lambda>(k, u). map_of cm k = None) um)" by (rule imageI)
    then show "u \<in> set added" unfolding added_def by simp
  qed
  have added_IDs: "IDs_of h1 added = map (\<lambda>e. Some (fst e)) (filter (\<lambda>(k, u). map_of cm k = None) um)"
  proof -
    have "\<And>e. e \<in> set um \<Longrightarrow> ID (h1 (snd e)) = Some (fst e)"
      using um_set by (metis prod.collapse)
    then show ?thesis unfolding added_def IDs_of_def by (simp add: o_def)
  qed
  have "distinct (map fst (filter (\<lambda>(k, u). map_of cm k = None) um))"
    using um_keys by (rule distinct_map_filter)
  then have added_dist_IDs: "distinct (IDs_of h1 added)"
    unfolding added_IDs by (simp add: distinct_map inj_on_def)
  then have added_dist: "distinct added" by (simp add: IDs_of_def distinct_map)
  have added_not_cur: "\<And>u. u \<in> set added \<Longrightarrow> u \<notin> set cur"
    by (auto simp: added_set IDs_of_def)
  have added_h2: "\<And>u. u \<in> set added \<Longrightarrow> heap s2 u = h1 u"
    using un' saved_lt added_not_cur by (simp add: added_set overwritten_def)
  have c1: "has_IDs s2"
    using wcD(2) cur_lt by (simp add: has_IDs_def list_all_iff cur2 id2)
  have c2: "cache_ok s2"
    using fr(1) _ co by (rule cache_ok_cong) (simp add: cur_def [symmetric] id2 cur_lt h1_def [symmetric])
  have c3: "\<forall>u\<in>set added. AddToScene (heap s2 u) \<and> SingletonTag (heap s2 u) = None
           \<and> ID (heap s2 u) \<noteq> None \<and> ID (heap s2 u) \<noteq> Some []"
    using addable wsD(2,3) by (simp add: added_h2) (simp add: added_set)
  have ids2: "\<And>as. (\<And>a. a \<in> set as \<Longrightarrow> a < ?N) \<Longrightarrow> IDs_of (heap s2) as = IDs_of h1 as"
    by (simp add: IDs_of_def id2)
  have ia: "IDs_of (heap s2) added = IDs_of h1 added"
    by (rule ids2) (simp add: added_set saved_lt)
  have ic: "IDs_of (heap s2) cur = IDs_of h1 cur" by (rule ids2) (rule cur_lt)
  have c4: "distinct (IDs_of (heap s2) added)" using added_dist_IDs by (simp add: ia)
  have c5: "set (IDs_of (heap s2) added) \<inter> set (IDs_of (heap s2) (CurrentScene s2)) = {}"
    unfolding ia cur2 ic by (auto simp: IDs_of_def added_set)
  from add_nodes_spec [OF c1 c2 c3 c4 c5] obtain s3
    where s3: "add_nodes added s2 = Some s3" "CurrentScene s3 = cur @ added"
      and h3: "\<forall>a. a \<notin> set added \<longrightarrow> heap s3 a = heap s2 a"
      and f3: "\<forall>a. ID (heap s3 a) = ID (heap s2 a) \<and> SingletonTag (heap s3 a) = SingletonTag (heap s2 a)
            \<and> AddToScene (heap s3 a) = AddToScene (heap s2 a)"
      and st3: "UndoStack s3 = UndoStack s2" "RedoStack s3 = RedoStack s2" "NextNode s3 = NextNode s2"
      and ok3: "cache_ok s3" "timed s2 \<longrightarrow> timed s3"
    unfolding cur2 by blast
  have t2: "timed s2" using ti fr(1) by (simp add: timed_def same_scene_def)
  \<comment> \<open>the nodes to remove\<close>
  define s4 where "s4 = remove_nodes (nodes_to_remove cm um) s3"
  have d3: "distinct (CurrentScene s3)"
    using wcD(1) added_dist added_not_cur by (auto simp: s3(2))
  from remove_nodes_spec [OF d3, of "nodes_to_remove cm um"] ok3 t2
  have r4: "CurrentScene s4 = filter (\<lambda>x. x \<notin> set (nodes_to_remove cm um)) (cur @ added)"
    and h4: "heap s4 = heap s3"
    and st4: "UndoStack s4 = UndoStack s3" "RedoStack s4 = RedoStack s3" "NextNode s4 = NextNode s3"
    and ok4: "cache_ok s4" "timed s4"
    by (simp_all add: s4_def s3(2))
  have rem: "\<And>x. x \<in> set (nodes_to_remove cm um)
      \<longleftrightarrow> x \<in> set cur \<and> ID (h1 x) \<notin> set (IDs_of h1 saved)"
  proof
    fix x assume "x \<in> set (nodes_to_remove cm um)"
    then obtain k where "(k, x) \<in> set cm" "map_of um k = None"
      unfolding nodes_to_remove_def by auto
    then show "x \<in> set cur \<and> ID (h1 x) \<notin> set (IDs_of h1 saved)"
      by (simp add: cm_set um_None)
  next
    fix x assume x: "x \<in> set cur \<and> ID (h1 x) \<notin> set (IDs_of h1 saved)"
    with wcD(2) [of x] obtain k where k: "ID (h1 x) = Some k" by auto
    with x have "(k, x) \<in> set cm" "map_of um k = None" by (simp_all add: cm_set um_None)
    then have "(k, x) \<in> set (filter (\<lambda>(k, c). map_of um k = None) cm)" by simp
    then have "snd (k, x) \<in> snd ` set (filter (\<lambda>(k, c). map_of um k = None) cm)" by (rule imageI)
    then show "x \<in> set (nodes_to_remove cm um)"
      unfolding nodes_to_remove_def by simp
  qed
  have f1: "filter (\<lambda>x. x \<notin> set (nodes_to_remove cm um)) cur
      = filter (\<lambda>c. ID (h1 c) \<in> set (IDs_of h1 saved)) cur"
    by (rule filter_cong) (simp_all add: rem)
  have f2: "filter (\<lambda>x. x \<notin> set (nodes_to_remove cm um)) added = added"
    using added_not_cur by (simp add: rem)
  have g_cur: "CurrentScene s4 = filter (\<lambda>c. ID (h1 c) \<in> set (IDs_of h1 saved)) cur @ added"
    by (simp add: r4 f1 f2)
  have g_res: "restore redo saved s1 = Some s4"
    using cm(1) um(1) s2 s3(1) by (simp add: restore_def h1_def cur_def added_def s4_def)
  have g_ids: "\<forall>a. a < ?N \<longrightarrow> ID (heap s4 a) = ID (h1 a)"
    using f3 by (simp add: h4 id2)
  have g_over: "\<forall>c\<in>set cur. \<forall>u\<in>set saved. ID (h1 u) = ID (h1 c) \<and> u \<noteq> c \<longrightarrow>
           heap s4 c = CopyWithSceneWithSingleModifiedEvent (h1 c) (h1 u)"
  proof (intro ballI impI)
    fix c u assume a: "c \<in> set cur" "u \<in> set saved" "ID (h1 u) = ID (h1 c) \<and> u \<noteq> c"
    from a(1) added_not_cur have "c \<notin> set added" by blast
    with h3 have "heap s4 c = heap s2 c" by (simp add: h4)
    with tg' [OF a(1,2)] a(3) show "heap s4 c = CopyWithSceneWithSingleModifiedEvent (h1 c) (h1 u)"
      by simp
  qed
  have g_flags: "\<forall>a. a < ?N \<and> \<not> overwritten h1 cur saved a \<longrightarrow>
           AddToScene (heap s4 a) = AddToScene (h1 a)
           \<and> SingletonTag (heap s4 a) = SingletonTag (h1 a)"
    using f3 un' by (simp add: h4)
  have stk: "\<And>b. stack_of b s4 = stack_of b s2" by (simp add: stack_of_def st4 st3)
  have g_oth: "stack_of (\<not> redo) s4 = stack_of (\<not> redo) s1" by (simp add: stk fr(5))
  have g_top: "stack_of redo s4 = butlast (stack_of redo s1) @ [last (stack_of redo s2)]"
    using fr(3,4) append_butlast_last_id [of "stack_of redo s2"] by (simp add: stk)
  have nn: "NextNode s4 = NextNode s2" by (simp add: st4 st3)
  have "list_all2 (\<lambda>x' x. ID (heap s4 x') = ID (h1 x) \<and> x' < NextNode s4
           \<and> (x' = x \<or> overwritten h1 cur saved x)) (last (stack_of redo s2)) tp"
    using la unfolding tp_def
  proof (rule list.rel_mono_strong)
    fix x' x
    assume "x' \<in> set (last (stack_of redo s2))" and x: "x \<in> set (last (stack_of redo s1))"
      and rp: "replaced cm um s1 s2 x' x"
    from x fresh have xN: "x < ?N" by (simp add: tp_def)
    from rp show "ID (heap s4 x') = ID (h1 x) \<and> x' < NextNode s4
           \<and> (x' = x \<or> overwritten h1 cur saved x)"
      unfolding replaced_def
    proof (elim disjE conjE)
      assume "x' = x"
      with xN g_ids fr(2) show ?thesis by (simp add: nn)
    next
      assume a: "is_target cm um x" "?N \<le> x'" "x' < NextNode s2" "heap s2 x' = copy_of (heap s1 x)"
      have "x' \<notin> set added"
      proof
        assume "x' \<in> set added"
        then have "x' \<in> set saved" by (simp add: added_set)
        from saved_lt [OF this] a(2) show False by simp
      qed
      with h3 have "heap s4 x' = heap s2 x'" by (simp add: h4)
      with a show ?thesis by (simp add: copy_of_fields target nn h1_def)
    qed
  qed
  with g_res g_cur added_dist added_set g_ids g_over g_flags g_oth g_top fr(2) ok4 nn
  show ?thesis by (intro exI [of _ s4] exI [of _ added] exI [of _ "last (stack_of redo s2)"]) simp
qed

section \<open>Undo\<close>

text \<open>
  What the analysis of \<open>Undo\<close> asks of a scene and a saved collection: the nodes of each
  carry non-empty IDs, different for different nodes; the ID table is in step with the
  scene; the objects are older than the next one to be created; and a saved node whose ID
  the scene lacks can be added as it is (its \<open>AddToScene\<close> flag is set and it carries no
  singleton tag).
\<close>

definition restorable :: "scene \<Rightarrow> addr list \<Rightarrow> bool" where
  "restorable s saved =
     (well_named (heap s) (CurrentScene s) \<and> well_named (heap s) saved
      \<and> cache_ok s \<and> timed s
      \<and> (\<forall>a\<in>set (CurrentScene s) \<union> set saved. a < NextNode s)
      \<and> (\<forall>u\<in>set saved. ID (heap s u) \<notin> set (IDs_of (heap s) (CurrentScene s)) \<longrightarrow>
            AddToScene (heap s u) \<and> SingletonTag (heap s u) = None))"

definition exchangeable :: "scene \<Rightarrow> addr list \<Rightarrow> bool" where
  "exchangeable s saved =
     (restorable s saved
      \<and> (\<forall>c\<in>set (CurrentScene s). ID (heap s c) \<notin> set (IDs_of (heap s) saved) \<longrightarrow>
            AddToScene (heap s c) \<and> SingletonTag (heap s c) = None))"

text \<open>
  Two histories. In \<open>undo_scene\<close> the node \<open>Model1\<close> was edited after its state was saved
  (object 3 is the saved copy), \<open>Model2\<close> was deleted and \<open>Model3\<close> created. In
  \<open>before_undo\<close> a singleton view is added to an empty scene, the state is saved, the view
  is removed and another view with the same singleton tag is added.
\<close>

definition undo_heap :: "addr \<Rightarrow> node" where
  "undo_heap a =
     (if a = 0 then (example_node ''Model'' (Some ''Model1'') None)\<lparr>Contents := ''new''\<rparr>
      else if a = 1 then example_node ''Model'' (Some ''Model3'') None
      else if a = 2 then example_node ''Model'' (Some ''Model2'') None
      else (example_node ''Model'' (Some ''Model1'') None)\<lparr>Contents := ''old''\<rparr>)"

definition undo_scene :: scene where
  "undo_scene =
     (New undo_heap 4)\<lparr>CurrentScene := [0, 1], CurrentSceneMTime := 5, UndoStack := [[3, 2]]\<rparr>"

definition before_undo :: "scene option" where
  "before_undo =
     Option.bind
       (Option.bind (AddNode 0 (New (\<lambda>a. example_node ''View'' None (Some ''Main'')) 2))
          (\<lambda>(r, s). SaveStateForUndo None s))
       (\<lambda>s. map_option snd (AddNode 1 (RemoveNode (Some 0) s)))"

lemmas undo_eval =
  Undo_def Redo_def PushIntoRedoStack_def PushIntoUndoStack_def CopyNodeInRedoStack_def
  CopyNodeInUndoStack_def new_copy_def ReplaceItems_def CreateNodeInstance_def
  nodes_to_remove_def SaveStateForUndo_def ClearRedoStack_def undo_heap_def undo_scene_def
  before_undo_def restorable_def well_named_def IDs_of_def timed_def

lemma IDs_of_cong: "(\<And>a. a \<in> set as \<Longrightarrow> ID (h' a) = ID (h a)) \<Longrightarrow> IDs_of h' as = IDs_of h as"
  by (simp add: IDs_of_def)

lemma IDs_of_related:
  "list_all2 (\<lambda>x' x. ID (h' x') = ID (h x) \<and> P x' x) xs' xs \<Longrightarrow> IDs_of h' xs' = IDs_of h xs"
  unfolding IDs_of_def by (induction xs' xs rule: list_all2_induct) simp_all

lemma restored_IDs:
  assumes "set added = {u \<in> set vs. ID (h u) \<notin> set (IDs_of h cs)}"
  shows "set (IDs_of h (filter (\<lambda>c. ID (h c) \<in> set (IDs_of h vs)) cs @ added)) = set (IDs_of h vs)"
proof (intro set_eqI iffI)
  fix i assume "i \<in> set (IDs_of h (filter (\<lambda>c. ID (h c) \<in> set (IDs_of h vs)) cs @ added))"
  then consider c where "c \<in> set cs" "ID (h c) \<in> set (IDs_of h vs)" "i = ID (h c)"
    | u where "u \<in> set added" "i = ID (h u)"
    by (auto simp: IDs_of_def)
  then show "i \<in> set (IDs_of h vs)"
  proof cases
    case 1 then show ?thesis by simp
  next
    case 2 with assms show ?thesis by (simp add: IDs_of_def)
  qed
next
  fix i assume "i \<in> set (IDs_of h vs)"
  then obtain v where v: "v \<in> set vs" "i = ID (h v)" by (auto simp: IDs_of_def)
  show "i \<in> set (IDs_of h (filter (\<lambda>c. ID (h c) \<in> set (IDs_of h vs)) cs @ added))"
  proof (cases "ID (h v) \<in> set (IDs_of h cs)")
    case True
    then obtain c where c: "c \<in> set cs" "ID (h c) = ID (h v)" by (auto simp: IDs_of_def)
    with v have "ID (h c) \<in> set (IDs_of h vs)" by (simp add: IDs_of_def)
    with c have "c \<in> set (filter (\<lambda>c. ID (h c) \<in> set (IDs_of h vs)) cs)" by simp
    then have "ID (h c) \<in> set (IDs_of h (filter (\<lambda>c. ID (h c) \<in> set (IDs_of h vs)) cs))"
      unfolding IDs_of_def by (simp del: set_filter filter_set)
    with c(2) v(2) show ?thesis by (simp add: IDs_of_def)
  next
    case False
    with v assms have "v \<in> set added" by simp
    with v(2) show ?thesis by (simp add: IDs_of_def)
  qed
qed

text \<open>
  Where no singleton is in play \<open>Undo\<close> does restore the saved state. In a scene with a
  non-empty undo stack that meets the conditions above, \<open>Undo\<close> returns and the scene then
  holds the IDs of the saved collection: a saved node whose ID the scene lacked is in the
  scene; a node whose ID the saved collection lacks is gone; where an ID is in both and
  the objects differ, the node of the scene stays and holds a copy of the saved node; and
  the top of the undo stack is popped.
\<close>

lemma Undo_restores_saved_state:
  assumes ne: "UndoStack s \<noteq> []" and ok: "restorable s (last (UndoStack s))"
  shows "\<exists>s'. Undo s = Some s'
     \<and> (\<forall>u\<in>set (last (UndoStack s)).
           ID (heap s u) \<notin> set (IDs_of (heap s) (CurrentScene s)) \<longrightarrow> u \<in> set (CurrentScene s'))
     \<and> (\<forall>c\<in>set (CurrentScene s).
           ID (heap s c) \<notin> set (IDs_of (heap s) (last (UndoStack s))) \<longrightarrow> c \<notin> set (CurrentScene s'))
     \<and> (\<forall>c\<in>set (CurrentScene s). \<forall>u\<in>set (last (UndoStack s)).
           ID (heap s u) = ID (heap s c) \<and> u \<noteq> c \<longrightarrow>
             c \<in> set (CurrentScene s')
             \<and> heap s' c = CopyWithSceneWithSingleModifiedEvent (heap s c) (heap s u))
     \<and> set (IDs_of (heap s') (CurrentScene s')) = set (IDs_of (heap s) (last (UndoStack s)))
     \<and> UndoStack s' = butlast (UndoStack s)"
proof -
  let ?saved = "last (UndoStack s)"
  let ?cur = "CurrentScene s"
  let ?h = "heap s"
  define s1 where "s1 = PushIntoRedoStack (s\<lparr>InUndo := True\<rparr>)"
  have s1: "heap s1 = ?h" "CurrentScene s1 = ?cur" "NextNode s1 = NextNode s"
    "UndoStack s1 = UndoStack s" "stack_of True s1 = RedoStack s @ [?cur]"
    "stack_of False s1 = UndoStack s"
    by (simp_all add: s1_def PushIntoRedoStack_def stack_of_def)
  from ok have a1: "well_named (heap s1) (CurrentScene s1)" and a2: "well_named (heap s1) ?saved"
    and a3: "cache_ok s1" and a4: "timed s1"
    and a5: "\<forall>a\<in>set (CurrentScene s1) \<union> set ?saved \<union> set (last (stack_of True s1)). a < NextNode s1"
    and a7: "\<forall>u\<in>set ?saved. ID (heap s1 u) \<notin> set (IDs_of (heap s1) (CurrentScene s1)) \<longrightarrow>
                    AddToScene (heap s1 u) \<and> SingletonTag (heap s1 u) = None"
    unfolding restorable_def s1
    by (auto simp: cache_ok_def timed_def s1_def PushIntoRedoStack_def)
  have a6: "stack_of True s1 \<noteq> []" by (simp add: s1)
  from restore_spec [OF a1 a2 a3 a4 a5 a6 a7] obtain s4 added
    where r: "restore True ?saved s1 = Some s4"
      and c4': "CurrentScene s4 = filter (\<lambda>c. ID (heap s1 c) \<in> set (IDs_of (heap s1) ?saved))
                  (CurrentScene s1) @ added"
      and ad': "set added = {u \<in> set ?saved. ID (heap s1 u) \<notin> set (IDs_of (heap s1) (CurrentScene s1))}"
      and ids': "\<forall>a. a < NextNode s1 \<longrightarrow> ID (heap s4 a) = ID (heap s1 a)"
      and ov': "\<forall>c\<in>set (CurrentScene s1). \<forall>u\<in>set ?saved. ID (heap s1 u) = ID (heap s1 c) \<and> u \<noteq> c \<longrightarrow>
           heap s4 c = CopyWithSceneWithSingleModifiedEvent (heap s1 c) (heap s1 u)"
      and us': "stack_of (\<not> True) s4 = stack_of (\<not> True) s1"
    by blast
  have c4: "CurrentScene s4 = filter (\<lambda>c. ID (?h c) \<in> set (IDs_of ?h ?saved)) ?cur @ added"
    and ad: "set added = {u \<in> set ?saved. ID (?h u) \<notin> set (IDs_of ?h ?cur)}"
    and ids: "\<forall>a. a < NextNode s \<longrightarrow> ID (heap s4 a) = ID (?h a)"
    and ov: "\<forall>c\<in>set ?cur. \<forall>u\<in>set ?saved. ID (?h u) = ID (?h c) \<and> u \<noteq> c \<longrightarrow>
           heap s4 c = CopyWithSceneWithSingleModifiedEvent (?h c) (?h u)"
    and us: "stack_of False s4 = UndoStack s"
    using c4' ad' ids' ov' us' by (simp_all add: s1)
  define s' where "s' = s4\<lparr>UndoStack := butlast (UndoStack s), InUndo := False\<rparr>"
  have u4: "UndoStack s4 = UndoStack s" using us by (simp add: stack_of_def)
  have res: "Undo s = Some s'"
    using ne r u4 by (simp add: Undo_restore s1_def s'_def)
  have f: "CurrentScene s' = CurrentScene s4" "heap s' = heap s4" "UndoStack s' = butlast (UndoStack s)"
    by (simp_all add: s'_def)
  have lt: "\<And>a. a \<in> set (CurrentScene s4) \<Longrightarrow> a < NextNode s"
    using ok by (auto simp: c4 ad restorable_def)
  have "IDs_of (heap s4) (CurrentScene s4) = IDs_of ?h (CurrentScene s4)"
    by (rule IDs_of_cong) (simp add: ids lt)
  moreover have "set (IDs_of ?h (CurrentScene s4)) = set (IDs_of ?h ?saved)"
    unfolding c4 using ad by (rule restored_IDs)
  ultimately have g5: "set (IDs_of (heap s') (CurrentScene s')) = set (IDs_of ?h ?saved)"
    by (simp add: f)
  have g2: "\<forall>u\<in>set ?saved. ID (?h u) \<notin> set (IDs_of ?h ?cur) \<longrightarrow> u \<in> set (CurrentScene s')"
    by (simp add: f c4 ad)
  have g3: "\<forall>c\<in>set ?cur. ID (?h c) \<notin> set (IDs_of ?h ?saved) \<longrightarrow> c \<notin> set (CurrentScene s')"
    by (auto simp: f c4 ad IDs_of_def)
  have g4: "\<forall>c\<in>set ?cur. \<forall>u\<in>set ?saved. ID (?h u) = ID (?h c) \<and> u \<noteq> c \<longrightarrow>
             c \<in> set (CurrentScene s')
             \<and> heap s' c = CopyWithSceneWithSingleModifiedEvent (?h c) (?h u)"
  proof (intro ballI impI)
    fix c u assume a: "c \<in> set ?cur" "u \<in> set ?saved" "ID (?h u) = ID (?h c) \<and> u \<noteq> c"
    from a(2,3) have "ID (?h c) \<in> set (IDs_of ?h ?saved)"
      unfolding IDs_of_def by (metis (mono_tags, lifting) image_eqI set_map)
    with a(1) have "c \<in> set (CurrentScene s')" by (simp add: f c4)
    moreover from ov a have "heap s' c = CopyWithSceneWithSingleModifiedEvent (?h c) (?h u)"
      by (simp add: f)
    ultimately show "c \<in> set (CurrentScene s')
             \<and> heap s' c = CopyWithSceneWithSingleModifiedEvent (?h c) (?h u)" by simp
  qed
  from res g2 g3 g4 g5 f(3) show ?thesis by blast
qed

lemma Undo_restores_saved_state_example:
  "UndoStack undo_scene \<noteq> [] \<and> restorable undo_scene (last (UndoStack undo_scene))
   \<and> (case Undo undo_scene of
         None \<Rightarrow> False
       | Some s' \<Rightarrow> CurrentScene s' = [0, 2] \<and> Contents (heap s' 0) = ''old''
           \<and> UndoStack s' = [])"
  using Undo_restores_saved_state [of undo_scene]
  by (simp add: scene_eval undo_eval)

text \<open>
  Claim C1 says that \<open>Undo\<close> replaces the scene by the state on top of the undo stack, and
  that a node whose ID is in the saved collection only is added back. In the second
  history it is not. The saved view \<open>View1\<close> is handed to \<open>AddNode\<close>, which merges it into
  the view \<open>View2\<close> of the scene because of the equal singleton tags and does not store it;
  \<open>View2\<close> is then removed as a node created after the save. The scene is empty, and the
  entry is popped all the same.
\<close>

theorem Undo_drops_singleton:
  "(case before_undo of
      None \<Rightarrow> False
    | Some s \<Rightarrow> UndoStack s = [[0]] \<and> CurrentScene s = [1]
        \<and> ID (heap s 0) = Some ''View1'' \<and> ID (heap s 1) = Some ''View2''
        \<and> (case Undo s of
              None \<Rightarrow> False
            | Some s' \<Rightarrow> CurrentScene s' = [] \<and> UndoStack s' = []))"
  by (simp add: scene_eval undo_eval)

section \<open>Undo followed by redo\<close>

lemma well_named_IDs:
  "well_named h as \<longleftrightarrow>
     distinct (IDs_of h as) \<and> None \<notin> set (IDs_of h as) \<and> Some [] \<notin> set (IDs_of h as)"
proof -
  have "list_all (\<lambda>a. ID (h a) \<noteq> None \<and> ID (h a) \<noteq> Some []) as
      \<longleftrightarrow> None \<notin> set (IDs_of h as) \<and> Some [] \<notin> set (IDs_of h as)"
    by (induction as) (auto simp: IDs_of_def)
  then show ?thesis by (simp add: well_named_def)
qed

lemma list_all2_left:
  "list_all2 P xs ys \<Longrightarrow> x \<in> set xs \<Longrightarrow> \<exists>y\<in>set ys. P x y"
  by (induction xs ys rule: list_all2_induct) auto

lemma well_named_restored:
  assumes wc: "well_named h cs" and ws: "well_named h vs"
    and d: "distinct added" and a: "set added = {u \<in> set vs. ID (h u) \<notin> set (IDs_of h cs)}"
  shows "well_named h (filter (\<lambda>c. ID (h c) \<in> set (IDs_of h vs)) cs @ added)"
proof -
  let ?kept = "filter (\<lambda>c. ID (h c) \<in> set (IDs_of h vs)) cs"
  note wcD = well_namedD [OF wc] and wsD = well_namedD [OF ws]
  have "distinct (map (\<lambda>a. ID (h a)) cs)" using wc by (simp add: well_named_def IDs_of_def)
  then have k: "distinct (IDs_of h ?kept)" unfolding IDs_of_def by (rule distinct_map_filter)
  have "inj_on (\<lambda>a. ID (h a)) (set added)"
    unfolding inj_on_def using wsD(4) a by auto
  with d have ad: "distinct (IDs_of h added)" by (simp add: IDs_of_def distinct_map)
  have dis: "set (IDs_of h ?kept) \<inter> set (IDs_of h added) = {}"
  proof (rule ccontr)
    assume "set (IDs_of h ?kept) \<inter> set (IDs_of h added) \<noteq> {}"
    then obtain i where "i \<in> set (IDs_of h ?kept)" "i \<in> set (IDs_of h added)" by blast
    then obtain c u where "c \<in> set cs" "i = ID (h c)" "u \<in> set added" "i = ID (h u)"
      by (auto simp: IDs_of_def)
    then have "ID (h u) \<in> set (IDs_of h cs)" "ID (h u) \<notin> set (IDs_of h cs)"
      using a by (auto simp: IDs_of_def)
    then show False by simp
  qed
  have "list_all (\<lambda>a. ID (h a) \<noteq> None \<and> ID (h a) \<noteq> Some []) (?kept @ added)"
    using wcD(2,3) wsD(2,3) a by (auto simp: list_all_iff)
  with k ad dis show ?thesis by (simp add: well_named_def IDs_of_def)
qed

text \<open>
  Where no singleton is in play \<open>Redo\<close> takes back what \<open>Undo\<close> did. When, besides the
  conditions of \<open>Undo\<close>, the nodes of the scene whose ID the saved collection lacks can be
  added again as they are, \<open>Undo\<close> and then \<open>Redo\<close> both return and the scene holds the IDs
  it held before.
  \<open>Undo\<close> pushes one entry on the redo stack, with the IDs of the scene before it; \<open>Redo\<close>
  pops that entry and leaves on the undo stack, in place of the entry \<open>Undo\<close> popped, one
  with the IDs of the scene before the \<open>Redo\<close>.
\<close>

lemma Undo_then_Redo_restores_IDs:
  assumes ne: "UndoStack s \<noteq> []" and ex: "exchangeable s (last (UndoStack s))"
  shows "\<exists>s' s'' e e'. Undo s = Some s' \<and> Redo s' = Some s''
     \<and> set (IDs_of (heap s'') (CurrentScene s'')) = set (IDs_of (heap s) (CurrentScene s))
     \<and> RedoStack s' = RedoStack s @ [e] \<and> IDs_of (heap s') e = IDs_of (heap s) (CurrentScene s)
     \<and> RedoStack s'' = RedoStack s
     \<and> UndoStack s'' = butlast (UndoStack s) @ [e']
     \<and> IDs_of (heap s'') e' = IDs_of (heap s') (CurrentScene s')"
proof -
  let ?saved = "last (UndoStack s)"
  let ?cur = "CurrentScene s"
  let ?h = "heap s"
  let ?N = "NextNode s"
  from ex have ok: "restorable s ?saved"
    and ret: "\<forall>c\<in>set ?cur. ID (?h c) \<notin> set (IDs_of ?h ?saved) \<longrightarrow>
            AddToScene (?h c) \<and> SingletonTag (?h c) = None"
    by (simp_all add: exchangeable_def)
  from ok have wc: "well_named ?h ?cur" and ws: "well_named ?h ?saved"
    and lt: "\<forall>a\<in>set ?cur \<union> set ?saved. a < ?N"
    by (simp_all add: restorable_def)
  define s1 where "s1 = PushIntoRedoStack (s\<lparr>InUndo := True\<rparr>)"
  have s1: "heap s1 = ?h" "CurrentScene s1 = ?cur" "NextNode s1 = ?N"
    "UndoStack s1 = UndoStack s" "stack_of True s1 = RedoStack s @ [?cur]"
    "stack_of False s1 = UndoStack s"
    by (simp_all add: s1_def PushIntoRedoStack_def stack_of_def)
  from ok have a1: "well_named (heap s1) (CurrentScene s1)" and a2: "well_named (heap s1) ?saved"
    and a3: "cache_ok s1" and a4: "timed s1"
    and a5: "\<forall>a\<in>set (CurrentScene s1) \<union> set ?saved \<union> set (last (stack_of True s1)). a < NextNode s1"
    and a7: "\<forall>u\<in>set ?saved. ID (heap s1 u) \<notin> set (IDs_of (heap s1) (CurrentScene s1)) \<longrightarrow>
                    AddToScene (heap s1 u) \<and> SingletonTag (heap s1 u) = None"
    unfolding restorable_def s1
    by (auto simp: cache_ok_def timed_def s1_def PushIntoRedoStack_def)
  have a6: "stack_of True s1 \<noteq> []" by (simp add: s1)
  from restore_spec [OF a1 a2 a3 a4 a5 a6 a7] obtain s4 added e
    where r: "restore True ?saved s1 = Some s4"
      and c4': "CurrentScene s4 = filter (\<lambda>c. ID (heap s1 c) \<in> set (IDs_of (heap s1) ?saved))
                  (CurrentScene s1) @ added"
      and dd: "distinct added"
      and ad': "set added = {u \<in> set ?saved. ID (heap s1 u) \<notin> set (IDs_of (heap s1) (CurrentScene s1))}"
      and ids': "\<forall>a. a < NextNode s1 \<longrightarrow> ID (heap s4 a) = ID (heap s1 a)"
      and fl': "\<forall>a. a < NextNode s1 \<and> \<not> overwritten (heap s1) (CurrentScene s1) ?saved a \<longrightarrow>
           AddToScene (heap s4 a) = AddToScene (heap s1 a)
           \<and> SingletonTag (heap s4 a) = SingletonTag (heap s1 a)"
      and us': "stack_of (\<not> True) s4 = stack_of (\<not> True) s1"
      and rs': "stack_of True s4 = butlast (stack_of True s1) @ [e]"
      and la': "list_all2 (\<lambda>x' x. ID (heap s4 x') = ID (heap s1 x) \<and> x' < NextNode s4
           \<and> (x' = x \<or> overwritten (heap s1) (CurrentScene s1) ?saved x)) e (last (stack_of True s1))"
      and nx': "NextNode s1 \<le> NextNode s4" and ck: "cache_ok s4" "timed s4"
    by blast
  let ?kept = "filter (\<lambda>c. ID (?h c) \<in> set (IDs_of ?h ?saved)) ?cur"
  have c4: "CurrentScene s4 = ?kept @ added"
    and ad: "set added = {u \<in> set ?saved. ID (?h u) \<notin> set (IDs_of ?h ?cur)}"
    and ids: "\<forall>a. a < ?N \<longrightarrow> ID (heap s4 a) = ID (?h a)"
    and fl: "\<forall>a. a < ?N \<and> \<not> overwritten ?h ?cur ?saved a \<longrightarrow>
           AddToScene (heap s4 a) = AddToScene (?h a) \<and> SingletonTag (heap s4 a) = SingletonTag (?h a)"
    and us: "stack_of False s4 = UndoStack s"
    and rs: "stack_of True s4 = RedoStack s @ [e]"
    and la: "list_all2 (\<lambda>x' x. ID (heap s4 x') = ID (?h x) \<and> x' < NextNode s4
           \<and> (x' = x \<or> overwritten ?h ?cur ?saved x)) e ?cur"
    and nx: "?N \<le> NextNode s4"
    using c4' ad' ids' fl' us' rs' la' nx' by (simp_all add: s1)
  define s' where "s' = s4\<lparr>UndoStack := butlast (UndoStack s), InUndo := False\<rparr>"
  have u4: "UndoStack s4 = UndoStack s" and r4: "RedoStack s4 = RedoStack s @ [e]"
    using us rs by (simp_all add: stack_of_def)
  have undo: "Undo s = Some s'"
    using ne r u4 by (simp add: Undo_restore s1_def s'_def)
  have f: "CurrentScene s' = ?kept @ added" "heap s' = heap s4" "RedoStack s' = RedoStack s @ [e]"
    "UndoStack s' = butlast (UndoStack s)" "NextNode s' = NextNode s4"
    by (simp_all add: s'_def c4 r4)
  have e_IDs: "IDs_of (heap s4) e = IDs_of ?h ?cur" using la by (rule IDs_of_related)
  have cur'_lt: "\<And>a. a \<in> set (?kept @ added) \<Longrightarrow> a < ?N" using lt by (auto simp: ad)
  have cur'_IDs: "IDs_of (heap s4) (?kept @ added) = IDs_of ?h (?kept @ added)"
    by (rule IDs_of_cong) (simp add: ids cur'_lt)
  have cur'_set: "set (IDs_of (heap s4) (?kept @ added)) = set (IDs_of ?h ?saved)"
    unfolding cur'_IDs using ad by (rule restored_IDs)
  \<comment> \<open>the state in which Redo restores the entry \<open>e\<close>\<close>
  define t1 where "t1 = PushIntoUndoStack s'"
  have t1: "heap t1 = heap s4" "CurrentScene t1 = ?kept @ added" "NextNode t1 = NextNode s4"
    "stack_of False t1 = butlast (UndoStack s) @ [?kept @ added]"
    "stack_of True t1 = RedoStack s @ [e]"
    by (simp_all add: t1_def PushIntoUndoStack_def stack_of_def f)
  have b1: "well_named (heap t1) (CurrentScene t1)"
    unfolding t1 well_named_IDs cur'_IDs
    using well_named_restored [OF wc ws dd ad] by (simp add: well_named_IDs)
  have b2: "well_named (heap t1) e"
    unfolding t1 well_named_IDs e_IDs using wc by (simp add: well_named_IDs)
  have b3: "cache_ok t1" and b4: "timed t1"
    using ck by (simp_all add: cache_ok_def timed_def t1_def PushIntoUndoStack_def s'_def)
  have e_lt: "\<And>x. x \<in> set e \<Longrightarrow> x < NextNode s4"
    using list_all2_left [OF la] by blast
  have cur'_lt4: "\<And>a. a \<in> set (?kept @ added) \<Longrightarrow> a < NextNode s4"
    using cur'_lt nx by (rule less_le_trans)
  have b5: "\<forall>a\<in>set (CurrentScene t1) \<union> set e \<union> set (last (stack_of False t1)). a < NextNode t1"
    unfolding t1 using cur'_lt4 e_lt by (simp del: set_append set_filter filter_set) blast
  have b6: "stack_of False t1 \<noteq> []" by (simp add: t1)
  have b7: "\<forall>u\<in>set e. ID (heap t1 u) \<notin> set (IDs_of (heap t1) (CurrentScene t1)) \<longrightarrow>
                    AddToScene (heap t1 u) \<and> SingletonTag (heap t1 u) = None"
    unfolding t1 cur'_set
  proof (intro ballI impI)
    fix u assume u: "u \<in> set e" and n: "ID (heap s4 u) \<notin> set (IDs_of ?h ?saved)"
    from list_all2_left [OF la u] obtain x
      where x: "x \<in> set ?cur" "ID (heap s4 u) = ID (?h x)" "u = x \<or> overwritten ?h ?cur ?saved x"
      by blast
    have no: "\<not> overwritten ?h ?cur ?saved x"
    proof
      assume "overwritten ?h ?cur ?saved x"
      then obtain v where "v \<in> set ?saved" "ID (?h v) = ID (?h x)" by (auto simp: overwritten_def)
      then have "ID (?h x) \<in> set (IDs_of ?h ?saved)"
        unfolding IDs_of_def by (metis (mono_tags, lifting) image_eqI set_map)
      with n x(2) show False by simp
    qed
    with x(3) have ux: "u = x" by simp
    from x(1) lt have "x < ?N" by simp
    with fl no have "AddToScene (heap s4 x) = AddToScene (?h x)"
      "SingletonTag (heap s4 x) = SingletonTag (?h x)" by simp_all
    moreover from ret x(1) n x(2) have "AddToScene (?h x) \<and> SingletonTag (?h x) = None" by simp
    ultimately show "AddToScene (heap s4 u) \<and> SingletonTag (heap s4 u) = None" by (simp add: ux)
  qed
  from restore_spec [OF b1 b2 b3 b4 b5 b6 b7] obtain t4 added2 e'
    where q: "restore False e t1 = Some t4"
      and qc: "CurrentScene t4 = filter (\<lambda>c. ID (heap t1 c) \<in> set (IDs_of (heap t1) e))
                  (CurrentScene t1) @ added2"
      and qa: "set added2 = {u \<in> set e. ID (heap t1 u) \<notin> set (IDs_of (heap t1) (CurrentScene t1))}"
      and qi: "\<forall>a. a < NextNode t1 \<longrightarrow> ID (heap t4 a) = ID (heap t1 a)"
      and qo: "stack_of (\<not> False) t4 = stack_of (\<not> False) t1"
      and qs: "stack_of False t4 = butlast (stack_of False t1) @ [e']"
      and ql: "list_all2 (\<lambda>x' x. ID (heap t4 x') = ID (heap t1 x) \<and> x' < NextNode t4
           \<and> (x' = x \<or> overwritten (heap t1) (CurrentScene t1) e x)) e' (last (stack_of False t1))"
    by blast
  define s'' where "s'' = t4\<lparr>RedoStack := butlast (RedoStack s')\<rparr>"
  have qr: "RedoStack t4 = RedoStack s @ [e]"
    using qo t1(5) by (simp add: stack_of_def)
  have redo: "Redo s' = Some s''"
    using q qr by (simp add: Redo_restore f t1_def s''_def)
  have "UndoStack t4 = butlast (UndoStack s) @ [e']"
    using qs t1(4) by (simp add: stack_of_def)
  then have g: "CurrentScene s'' = CurrentScene t4" "heap s'' = heap t4" "RedoStack s'' = RedoStack s"
    "UndoStack s'' = butlast (UndoStack s) @ [e']"
    by (simp_all add: s''_def f)
  have t4_lt: "\<And>a. a \<in> set (CurrentScene t4) \<Longrightarrow> a < NextNode t1"
    using b5 by (auto simp: qc qa)
  have "IDs_of (heap t4) (CurrentScene t4) = IDs_of (heap t1) (CurrentScene t4)"
    by (rule IDs_of_cong) (simp add: qi t4_lt)
  moreover have "set (IDs_of (heap t1) (CurrentScene t4)) = set (IDs_of (heap t1) e)"
    unfolding qc using qa by (rule restored_IDs)
  ultimately have g1: "set (IDs_of (heap s'') (CurrentScene s'')) = set (IDs_of ?h ?cur)"
    by (simp add: g t1 e_IDs)
  have g2: "IDs_of (heap s'') e' = IDs_of (heap s') (CurrentScene s')"
    using IDs_of_related [OF ql] by (simp add: g f t1)
  have g3: "IDs_of (heap s') e = IDs_of ?h ?cur" by (simp add: f e_IDs)
  from undo redo g1 f(3) g3 g(3,4) g2 show ?thesis by blast
qed

lemma Undo_then_Redo_restores_IDs_example:
  "UndoStack undo_scene \<noteq> [] \<and> exchangeable undo_scene (last (UndoStack undo_scene))
   \<and> IDs_of (heap undo_scene) (CurrentScene undo_scene) = [Some ''Model1'', Some ''Model3'']
   \<and> (case Option.bind (Undo undo_scene) Redo of
         None \<Rightarrow> False
       | Some s'' \<Rightarrow> CurrentScene s'' = [0, 1]
           \<and> IDs_of (heap s'') (CurrentScene s'') = [Some ''Model1'', Some ''Model3'']
           \<and> Contents (heap s'' 0) = ''new'' \<and> RedoStack s'' = [])"
  using Undo_then_Redo_restores_IDs [of undo_scene]
  by (simp add: scene_eval undo_eval exchangeable_def)

text \<open>
  Claim C2 says that \<open>Undo\<close> followed by \<open>Redo\<close> restores the IDs the scene held before the
  \<open>Undo\<close>. In the second history it does not. The scene holds the view \<open>View2\<close>; \<open>Undo\<close>
  merges the saved view \<open>View1\<close> into it, which gives it the ID \<open>View1\<close>, and removes it;
  \<open>Redo\<close> adds it back with that ID. The scene holds the same object as before, under the
  ID \<open>View1\<close>.
\<close>

theorem Undo_Redo_changes_IDs:
  "(case before_undo of
      None \<Rightarrow> False
    | Some s \<Rightarrow> UndoStack s \<noteq> [] \<and> CurrentScene s = [1]
        \<and> IDs_of (heap s) (CurrentScene s) = [Some ''View2'']
        \<and> (case Undo s of
              None \<Rightarrow> False
            | Some s' \<Rightarrow> CurrentScene s' \<noteq> CurrentScene s
                \<and> (case Redo s' of
                      None \<Rightarrow> False
                    | Some s'' \<Rightarrow> CurrentScene s'' = [1]
                        \<and> IDs_of (heap s'') (CurrentScene s'') = [Some ''View1''])))"
  by (simp add: scene_eval undo_eval)

end
